theory Spec2Isabelle
  imports Main "HOL-Library.Sublist"
begin

unbundle bit_operations_syntax

section \<open>Strings and characters\<close>

text \<open>
  A Python \<open>str\<close> is modelled as a \<^typ>\<open>string\<close>, one \<^typ>\<open>char\<close> per code point;
  the model covers the code points below 256. The backslash and the newline, which
  cannot be written inside a string literal, get names.
\<close>

definition BSL :: char where
  "BSL = CHR 0x5C"

definition NL :: char where
  "NL = CHR 0x0A"

section \<open>The delimiter balancer\<close>

text \<open>
  \<open>balance_parentheses\<close> (source lines 226-252). The first \<open>while\<close> loop runs an index
  \<open>i\<close> over \<open>regex\<close> with a stack of positions and the \<open>result\<close> built so far;
  \<open>regex[i:i+2]\<close> is \<open>take 2 (drop i regex)\<close>, which is one character long when the
  backslash is the last character. The second loop appends one closer per stack entry.
\<close>

function balance_loop :: "string \<Rightarrow> nat \<Rightarrow> nat list \<Rightarrow> string \<Rightarrow> nat list \<times> string" where
  "balance_loop regex i stack result =
     (if i < length regex then
        (if regex ! i = BSL then
           balance_loop regex (i + 2) stack (result @ take 2 (drop i regex))
         else if regex ! i = CHR ''('' then
           balance_loop regex (i + 1) (stack @ [i]) (result @ [regex ! i])
         else if regex ! i = CHR '')'' then
           (if stack \<noteq> [] then
              balance_loop regex (i + 1) (butlast stack) (result @ [regex ! i])
            else
              balance_loop regex (i + 1) stack (result @ [BSL, regex ! i]))
         else
           balance_loop regex (i + 1) stack (result @ [regex ! i]))
      else (stack, result))"
  by pat_completeness auto
termination
  by (relation "measure (\<lambda>(regex, i, stack, result). length regex - i)") auto

declare balance_loop.simps [simp del]

fun close_loop :: "nat list \<Rightarrow> string \<Rightarrow> string" where
  "close_loop [] result = result"
| "close_loop (p # stack) result = close_loop (butlast (p # stack)) (result @ '')'')"

definition balance_parentheses :: "string \<Rightarrow> string" where
  "balance_parentheses regex =
     (case balance_loop regex 0 [] [] of (stack, result) \<Rightarrow> close_loop stack result)"

text \<open>
  The measure of the balance property: the number of occurrences of a character that
  are not escaped, where, read from the left, a backslash escapes the character after
  it (the balancer's own reading of a pattern).
\<close>

fun unescaped_count :: "char \<Rightarrow> string \<Rightarrow> nat" where
  "unescaped_count d [] = 0"
| "unescaped_count d [c] = (if c \<noteq> BSL \<and> c = d then 1 else 0)"
| "unescaped_count d (c # e # cs) =
     (if c = BSL then unescaped_count d cs
      else (if c = d then 1 else 0) + unescaped_count d (e # cs))"

text \<open>A pattern ends in a dangling escape when its last backslash has nothing to escape.\<close>

fun dangling_escape :: "string \<Rightarrow> bool" where
  "dangling_escape [] = False"
| "dangling_escape [c] = (c = BSL)"
| "dangling_escape (c # e # cs) = (if c = BSL then dangling_escape cs else dangling_escape (e # cs))"

section \<open>The flag codec\<close>

text \<open>
  The flag bits are the constants of Python's \<open>re\<close> module; a flag set is a Python
  integer, hence an \<^typ>\<open>int\<close> with the bitwise operations.
\<close>

definition IGNORECASE :: int where "IGNORECASE = 2"
definition MULTILINE :: int where "MULTILINE = 8"
definition DOTALL :: int where "DOTALL = 16"
definition UNICODE :: int where "UNICODE = 32"
definition VERBOSE :: int where "VERBOSE = 64"

text \<open>\<open>handle_flags\<close> (source lines 268-278).\<close>

definition handle_flags :: "int \<Rightarrow> string" where
  "handle_flags py_flags =
     (let js_flags = '''';
          js_flags = (if py_flags AND IGNORECASE \<noteq> 0 then js_flags @ ''i'' else js_flags);
          js_flags = (if py_flags AND MULTILINE \<noteq> 0 then js_flags @ ''m'' else js_flags);
          js_flags = (if py_flags AND DOTALL \<noteq> 0 then js_flags @ ''s'' else js_flags);
          js_flags = (if py_flags AND UNICODE \<noteq> 0 then js_flags @ ''u'' else js_flags)
      in js_flags)"

text \<open>\<open>parse_flags\<close> (source lines 280-292); \<open>'i' in flags_str\<close> is membership.\<close>

definition parse_flags :: "string \<Rightarrow> int" where
  "parse_flags flags_str =
     (let flags = 0;
          flags = (if CHR ''i'' \<in> set flags_str then flags OR IGNORECASE else flags);
          flags = (if CHR ''m'' \<in> set flags_str then flags OR MULTILINE else flags);
          flags = (if CHR ''s'' \<in> set flags_str then flags OR DOTALL else flags);
          flags = (if CHR ''x'' \<in> set flags_str then flags OR VERBOSE else flags);
          flags = (if CHR ''u'' \<in> set flags_str then flags OR UNICODE else flags)
      in flags)"

section \<open>Python string methods\<close>

text \<open>
  \<open>sub in s\<close>, \<open>s.replace(old, new)\<close> (every occurrence, found from the left, none
  overlapping another; for an empty \<open>old\<close>, \<open>new\<close> goes before every character and at
  the end), \<open>s.lstrip(chars)\<close>, \<open>s.strip(chars)\<close> and \<open>s.strip()\<close>.
\<close>

fun str_in :: "string \<Rightarrow> string \<Rightarrow> bool" where
  "str_in sub [] = (sub = [])"
| "str_in sub (c # cs) = (prefix sub (c # cs) \<or> str_in sub cs)"

function str_replace :: "string \<Rightarrow> string \<Rightarrow> string \<Rightarrow> string" where
  "str_replace old new [] = (if old = [] then new else [])"
| "str_replace old new (c # cs) =
     (if old = [] then new @ c # str_replace old new cs
      else if prefix old (c # cs) then new @ str_replace old new (drop (length old) (c # cs))
      else c # str_replace old new cs)"
  by pat_completeness auto
termination
  by (relation "measure (\<lambda>(old, new, s). length s)") auto

definition py_lstrip :: "string \<Rightarrow> string \<Rightarrow> string" where
  "py_lstrip chars s = dropWhile (\<lambda>c. c \<in> set chars) s"

definition py_rstrip :: "string \<Rightarrow> string \<Rightarrow> string" where
  "py_rstrip chars s = rev (dropWhile (\<lambda>c. c \<in> set chars) (rev s))"

definition py_strip :: "string \<Rightarrow> string \<Rightarrow> string" where
  "py_strip chars s = py_rstrip chars (py_lstrip chars s)"

text \<open>
  The character classes of Python 3 on the code points below 256: \<open>str.isspace\<close> (also
  the class \<open>\s\<close> of \<open>re\<close>) and the class \<open>\w\<close>.
\<close>

definition is_space :: "char \<Rightarrow> bool" where
  "is_space c = (let n = (of_char c :: nat) in
     (9 \<le> n \<and> n \<le> 13) \<or> (28 \<le> n \<and> n \<le> 32) \<or> n = 133 \<or> n = 160)"

definition is_word :: "char \<Rightarrow> bool" where
  "is_word c = (let n = (of_char c :: nat) in
     (48 \<le> n \<and> n \<le> 57) \<or> (65 \<le> n \<and> n \<le> 90) \<or> n = 95 \<or> (97 \<le> n \<and> n \<le> 122) \<or>
     n = 170 \<or> n = 178 \<or> n = 179 \<or> n = 181 \<or> n = 185 \<or> n = 186 \<or>
     (188 \<le> n \<and> n \<le> 190) \<or> (192 \<le> n \<and> n \<le> 214) \<or> (216 \<le> n \<and> n \<le> 246) \<or>
     (248 \<le> n \<and> n \<le> 255))"

definition py_strip_space :: "string \<Rightarrow> string" where
  "py_strip_space s = rev (dropWhile is_space (rev (dropWhile is_space s)))"

section \<open>Regular expressions of Python's re module\<close>

text \<open>
  The source rewrites patterns with \<open>re.sub\<close>. The module \<open>re\<close> is Python's own; the part
  of its pattern language that the source uses is embedded here: the syntax of a pattern
  as a datatype, and the backtracking matcher as a function that lists, in the order in
  which the engine tries them, the states in which a pattern can finish.
\<close>

datatype citem = CChr char | CWord | CSpace | CNonSpace

datatype atom = Dot | Word | Space | OneOf "citem list" | NoneOf "citem list"

datatype re =
    Lit string
  | One atom
  | Seq re re
  | Alt re re
  | Star re
  | LazyStar re
  | Plus re
  | Opt re
  | Group nat re
  | Eol
  | Ahead re
  | NotBehind atom

fun citem_match :: "citem \<Rightarrow> char \<Rightarrow> bool" where
  "citem_match (CChr d) c = (c = d)"
| "citem_match CWord c = is_word c"
| "citem_match CSpace c = is_space c"
| "citem_match CNonSpace c = (\<not> is_space c)"

text \<open>The dot is read without \<open>re.DOTALL\<close>: every character but the newline.\<close>

fun atom_match :: "atom \<Rightarrow> char \<Rightarrow> bool" where
  "atom_match Dot c = (c \<noteq> NL)"
| "atom_match Word c = is_word c"
| "atom_match Space c = is_space c"
| "atom_match (OneOf items) c = list_ex (\<lambda>i. citem_match i c) items"
| "atom_match (NoneOf items) c = (\<not> list_ex (\<lambda>i. citem_match i c) items)"

text \<open>
  A matcher state: the text before the position (nearest character first), the text
  from the position on, and the groups captured so far (latest first).
\<close>

type_synonym mstate = "string \<times> string \<times> (nat \<times> string) list"

fun remaining :: "mstate \<Rightarrow> nat" where
  "remaining (bef, aft, caps) = length aft"

fun caps_of :: "mstate \<Rightarrow> (nat \<times> string) list" where
  "caps_of (bef, aft, caps) = caps"

fun step_lit :: "string \<Rightarrow> mstate \<Rightarrow> mstate list" where
  "step_lit w (bef, aft, caps) =
     (if prefix w aft then [(rev w @ bef, drop (length w) aft, caps)] else [])"

fun step_atom :: "atom \<Rightarrow> mstate \<Rightarrow> mstate list" where
  "step_atom a (bef, [], caps) = []"
| "step_atom a (bef, c # aft, caps) = (if atom_match a c then [(c # bef, aft, caps)] else [])"

fun capture :: "nat \<Rightarrow> mstate \<Rightarrow> mstate \<Rightarrow> mstate" where
  "capture g (bef0, aft0, caps0) (bef, aft, caps) =
     (bef, aft, (g, take (length aft0 - length aft) aft0) # caps)"

text \<open>
  \<open>$\<close>: at the end of the text, or before a newline that ends it; with \<open>re.MULTILINE\<close>
  before every newline.
\<close>

fun at_eol :: "bool \<Rightarrow> mstate \<Rightarrow> bool" where
  "at_eol multiline (bef, aft, caps) =
     (aft = [] \<or> (if multiline then hd aft = NL else aft = [NL]))"

fun not_behind :: "atom \<Rightarrow> mstate \<Rightarrow> bool" where
  "not_behind a ([], aft, caps) = True"
| "not_behind a (c # bef, aft, caps) = (\<not> atom_match a c)"

text \<open>
  The repetitions. \<open>star_greedy f s\<close> tries one more round of \<open>f\<close> before it tries to
  stop; \<open>star_lazy f s\<close> tries to stop first. A round that consumes nothing is not
  repeated (every repeated pattern of the source consumes a character).
\<close>

function star_greedy :: "(mstate \<Rightarrow> mstate list) \<Rightarrow> mstate \<Rightarrow> mstate list"
  and star_greedy_over :: "(mstate \<Rightarrow> mstate list) \<Rightarrow> nat \<Rightarrow> mstate list \<Rightarrow> mstate list" where
  "star_greedy f s = star_greedy_over f (remaining s) (f s) @ [s]"
| "star_greedy_over f k [] = []"
| "star_greedy_over f k (t # ts) =
     (if remaining t < k then star_greedy f t else []) @ star_greedy_over f k ts"
  by pat_completeness auto
termination
  by (relation "measures [
        (\<lambda>x. case x of Inl (f, s) \<Rightarrow> remaining s | Inr (f, k, ts) \<Rightarrow> k),
        (\<lambda>x. case x of Inl (f, s) \<Rightarrow> 1 | Inr (f, k, ts) \<Rightarrow> 0),
        (\<lambda>x. case x of Inl (f, s) \<Rightarrow> 0 | Inr (f, k, ts) \<Rightarrow> length ts)]") auto

function star_lazy :: "(mstate \<Rightarrow> mstate list) \<Rightarrow> mstate \<Rightarrow> mstate list"
  and star_lazy_over :: "(mstate \<Rightarrow> mstate list) \<Rightarrow> nat \<Rightarrow> mstate list \<Rightarrow> mstate list" where
  "star_lazy f s = s # star_lazy_over f (remaining s) (f s)"
| "star_lazy_over f k [] = []"
| "star_lazy_over f k (t # ts) =
     (if remaining t < k then star_lazy f t else []) @ star_lazy_over f k ts"
  by pat_completeness auto
termination
  by (relation "measures [
        (\<lambda>x. case x of Inl (f, s) \<Rightarrow> remaining s | Inr (f, k, ts) \<Rightarrow> k),
        (\<lambda>x. case x of Inl (f, s) \<Rightarrow> 1 | Inr (f, k, ts) \<Rightarrow> 0),
        (\<lambda>x. case x of Inl (f, s) \<Rightarrow> 0 | Inr (f, k, ts) \<Rightarrow> length ts)]") auto

primrec rmatch :: "re \<Rightarrow> bool \<Rightarrow> mstate \<Rightarrow> mstate list" where
  "rmatch (Lit w) multiline s = step_lit w s"
| "rmatch (One a) multiline s = step_atom a s"
| "rmatch (Seq r1 r2) multiline s = concat (map (rmatch r2 multiline) (rmatch r1 multiline s))"
| "rmatch (Alt r1 r2) multiline s = rmatch r1 multiline s @ rmatch r2 multiline s"
| "rmatch (Star r) multiline s = star_greedy (rmatch r multiline) s"
| "rmatch (LazyStar r) multiline s = star_lazy (rmatch r multiline) s"
| "rmatch (Plus r) multiline s =
     concat (map (star_greedy (rmatch r multiline)) (rmatch r multiline s))"
| "rmatch (Opt r) multiline s = rmatch r multiline s @ [s]"
| "rmatch (Group g r) multiline s = map (capture g s) (rmatch r multiline s)"
| "rmatch Eol multiline s = (if at_eol multiline s then [s] else [])"
| "rmatch (Ahead r) multiline s = (if rmatch r multiline s = [] then [] else [s])"
| "rmatch (NotBehind a) multiline s = (if not_behind a s then [s] else [])"

text \<open>
  A match attempt at one position: the first state the matcher finishes in, as the
  number of characters consumed and the groups. After an empty match the engine asks
  for a match that advances (\<open>must_advance\<close>) at the same position.
\<close>

definition match_at ::
  "re \<Rightarrow> bool \<Rightarrow> bool \<Rightarrow> string \<Rightarrow> string \<Rightarrow> (nat \<times> (nat \<times> string) list) option" where
  "match_at r multiline must_advance bef aft =
     (case filter (\<lambda>t. if must_advance then remaining t < length aft else True)
             (rmatch r multiline (bef, aft, [])) of
        [] \<Rightarrow> None
      | t # ts \<Rightarrow> Some (length aft - remaining t, caps_of t))"

text \<open>A match object: the matched text and the groups; \<open>group m 0\<close> is the matched text.\<close>

type_synonym match_obj = "string \<times> (nat \<times> string) list"

fun group :: "match_obj \<Rightarrow> nat \<Rightarrow> string" where
  "group (whole, caps) 0 = whole"
| "group (whole, caps) (Suc g) = (case map_of caps (Suc g) of Some t \<Rightarrow> t | None \<Rightarrow> [])"

lemma match_at_bound:
  assumes "match_at r multiline adv bef aft = Some (n, caps)"
  shows "n \<le> length aft" and "adv \<Longrightarrow> 0 < n"
proof -
  let ?xs = "filter (\<lambda>t. if adv then remaining t < length aft else True)
               (rmatch r multiline (bef, aft, []))"
  from assms obtain t ts where ts: "?xs = t # ts" and n: "n = length aft - remaining t"
    by (auto simp: match_at_def split: list.splits)
  show "n \<le> length aft" using n by simp
  have "t \<in> set ?xs" using ts by simp
  then have "adv \<Longrightarrow> remaining t < length aft" by simp
  with n show "adv \<Longrightarrow> 0 < n" by simp
qed

lemma scan_loop_decreases:
  assumes "match_at r multiline adv bef aft = Some (n, caps)"
  shows "2 * (length aft - n) + (if n = 0 then 0 else 1) < 2 * length aft + (if adv then 0 else 1)"
  using match_at_bound [OF assms] by (cases adv) auto

text \<open>
  The scan of \<open>re.sub\<close> and \<open>re.finditer\<close>: from the left, the text is cut into the
  characters no match covers (\<open>Inl\<close>) and the matches (\<open>Inr\<close>), none overlapping another.
  After a match the scan goes on where the match ended; an empty match may follow a
  non-empty one at the same position (Python 3.7 and later).
\<close>

function scan_loop :: "re \<Rightarrow> bool \<Rightarrow> bool \<Rightarrow> string \<Rightarrow> string \<Rightarrow> (char + match_obj) list" where
  "scan_loop r multiline must_advance bef aft =
     (case match_at r multiline must_advance bef aft of
        Some (n, caps) \<Rightarrow>
          Inr (take n aft, caps) #
          scan_loop r multiline (n = 0) (rev (take n aft) @ bef) (drop n aft)
      | None \<Rightarrow>
          (case aft of
             [] \<Rightarrow> []
           | c # cs \<Rightarrow> Inl c # scan_loop r multiline False (c # bef) cs))"
  by pat_completeness auto
termination
  by (relation "measure (\<lambda>(r, multiline, adv, bef, aft). 2 * length aft + (if adv then 0 else 1))")
    (auto dest: scan_loop_decreases)

declare scan_loop.simps [simp del]

definition re_scan :: "re \<Rightarrow> bool \<Rightarrow> string \<Rightarrow> (char + match_obj) list" where
  "re_scan r multiline s = scan_loop r multiline False [] s"

text \<open>\<open>re.sub(pattern, repl, s)\<close>: every match is replaced by what \<open>repl\<close> makes of it.\<close>

definition re_sub :: "re \<Rightarrow> bool \<Rightarrow> (match_obj \<Rightarrow> string) \<Rightarrow> string \<Rightarrow> string" where
  "re_sub r multiline repl s =
     concat (map (case_sum (\<lambda>c. [c]) repl) (re_scan r multiline s))"

text \<open>The matches alone, in the order in which \<open>re.sub\<close> hands them to \<open>repl\<close>.\<close>

definition re_matches :: "re \<Rightarrow> bool \<Rightarrow> string \<Rightarrow> match_obj list" where
  "re_matches r multiline s = [m. Inr m \<leftarrow> re_scan r multiline s]"

text \<open>
  \<open>re.sub\<close> with a callback that has an effect: the callback gets the state its
  earlier calls left, match after match from the left.
\<close>

fun sub_fold ::
  "('s \<Rightarrow> match_obj \<Rightarrow> 's \<times> string) \<Rightarrow> 's \<Rightarrow> (char + match_obj) list \<Rightarrow> 's \<times> string" where
  "sub_fold repl st [] = (st, [])"
| "sub_fold repl st (Inl c # ps) = (case sub_fold repl st ps of (st', out) \<Rightarrow> (st', c # out))"
| "sub_fold repl st (Inr m # ps) =
     (case repl st m of (st1, new) \<Rightarrow>
        (case sub_fold repl st1 ps of (st', out) \<Rightarrow> (st', new @ out)))"

definition re_sub_effect ::
  "re \<Rightarrow> bool \<Rightarrow> ('s \<Rightarrow> match_obj \<Rightarrow> 's \<times> string) \<Rightarrow> 's \<Rightarrow> string \<Rightarrow> 's \<times> string" where
  "re_sub_effect r multiline repl st s = sub_fold repl st (re_scan r multiline s)"

section \<open>The patterns of the source\<close>

definition SQ :: char where
  "SQ = CHR 0x27"

definition DQ :: char where
  "DQ = CHR 0x22"

text \<open>Line 157: \<open>\(\?P<(\w+)>\<close>.\<close>

definition re_named_group :: re where
  "re_named_group = Seq (Lit ''(?P<'') (Seq (Group 1 (Plus (One Word))) (Lit ''>''))"

text \<open>Line 160: \<open>\(\?:[^)]*?\)\?\<close>.\<close>

definition re_optional_group :: re where
  "re_optional_group =
     Seq (Lit ''(?:'') (Seq (LazyStar (One (NoneOf [CChr (CHR '')'')]))) (Lit '')?''))"

text \<open>Line 176: \<open>(?<!\\)#.*$\<close>, used with \<open>re.MULTILINE\<close>.\<close>

definition re_comment :: re where
  "re_comment = Seq (NotBehind (OneOf [CChr BSL])) (Seq (Lit ''#'') (Seq (Star (One Dot)) Eol))"

text \<open>
  Line 178: \<open>\s+(?=(?:[^[\]()\\]*(?:\\.[^[\]()\\]*)*\[[^[\]]*\])*[^[\]]*$)\<close>, with the two
  negated classes named.
\<close>

definition not_bracket_paren_bsl :: atom where
  "not_bracket_paren_bsl =
     NoneOf [CChr (CHR ''[''), CChr (CHR '']''), CChr (CHR ''(''), CChr (CHR '')''), CChr BSL]"

definition not_bracket :: atom where
  "not_bracket = NoneOf [CChr (CHR ''[''), CChr (CHR '']'')]"

definition re_whitespace :: re where
  "re_whitespace =
     Seq (Plus (One Space))
       (Ahead
         (Seq
           (Star
             (Seq (Star (One not_bracket_paren_bsl))
               (Seq (Star (Seq (Lit [BSL]) (Seq (One Dot) (Star (One not_bracket_paren_bsl)))))
                 (Seq (Lit ''['') (Seq (Star (One not_bracket)) (Lit '']''))))))
           (Seq (Star (One not_bracket)) Eol)))"

text \<open>Line 180: \<open>\(\?x\)\<close>.\<close>

definition re_verbose_flag :: re where
  "re_verbose_flag = Lit ''(?x)''"

text \<open>Line 200: \<open>\(\?P=(\w+)\)\<close>.\<close>

definition re_named_ref :: re where
  "re_named_ref = Seq (Lit ''(?P='') (Seq (Group 1 (Plus (One Word))) (Lit '')''))"

text \<open>Line 71: \<open>\(\?:\<close>.\<close>

definition re_noncapturing :: re where
  "re_noncapturing = Lit ''(?:''"

text \<open>Line 256: \<open>\(\?:([^)]*?)\)\?\<close>.\<close>

definition re_preserve_optional :: re where
  "re_preserve_optional =
     Seq (Lit ''(?:'') (Seq (Group 1 (LazyStar (One (NoneOf [CChr (CHR '')'')])))) (Lit '')?''))"

text \<open>Line 259: \<open>([\w\s\S]*?)(\\\w|\[.*?\]|\(.*?\))?\??$\<close>.\<close>

definition re_preserve_end :: re where
  "re_preserve_end =
     Seq (Group 1 (LazyStar (One (OneOf [CWord, CSpace, CNonSpace]))))
       (Seq
         (Opt (Group 2
           (Alt (Seq (Lit [BSL]) (One Word))
             (Alt (Seq (Lit ''['') (Seq (LazyStar (One Dot)) (Lit '']'')))
                  (Seq (Lit ''('') (Seq (LazyStar (One Dot)) (Lit '')'')))))))
         (Seq (Opt (Lit ''?'')) Eol))"

text \<open>Line 262: \<open>(\(\?:.*?\)\?\\n\?)\+\<close>.\<close>

definition re_preserve_repeated :: re where
  "re_preserve_repeated =
     Seq (Group 1 (Seq (Lit ''(?:'') (Seq (LazyStar (One Dot)) (Lit ('')?'' @ [BSL] @ ''n?'')))))
       (Lit ''+'')"

text \<open>Line 107: \<open>\n\<close>.\<close>

definition re_newline :: re where
  "re_newline = Lit [NL]"

section \<open>The rewrite rules\<close>

text \<open>\<open>conservative_conversion\<close> (source lines 145-162).\<close>

definition conservative_conversion :: "string \<Rightarrow> string" where
  "conservative_conversion regex =
     (let js_regex = str_replace [BSL, CHR ''Z''] ''$'' (str_replace [BSL, CHR ''A''] ''^'' regex);
          js_regex = re_sub re_named_group False (\<lambda>m. ''(?<'' @ group m 1 @ ''>'') js_regex;
          js_regex = re_sub re_optional_group False (\<lambda>m. ''(?:'' @ group m 0 @ '')?'') js_regex
      in js_regex)"

text \<open>\<open>handle_verbose_mode\<close> (source lines 165-181).\<close>

definition handle_verbose_mode :: "string \<Rightarrow> string" where
  "handle_verbose_mode regex0 =
     (let regex = re_sub re_comment True (\<lambda>m. []) regex0;
          regex = re_sub re_whitespace False (\<lambda>m. []) regex;
          regex = re_sub re_verbose_flag False (\<lambda>m. []) regex
      in py_strip_space regex)"

text \<open>
  \<open>handle_named_group_references\<close> (source lines 183-201). The callback
  \<open>replace_named_ref\<close> appends to the list \<open>warnings\<close> and returns the replacement.
\<close>

definition named_ref_warning :: "string \<Rightarrow> string" where
  "named_ref_warning name =
     ''Named group reference '' @ [SQ] @ ''(?P='' @ name @ '')'' @ [SQ] @
     '' is not directly supported in JavaScript. Converted to '' @ [SQ, BSL] @ ''k<'' @ name @
     ''>'' @ [SQ] @ '', but may not work in all browsers.''"

definition replace_named_ref :: "string list \<Rightarrow> match_obj \<Rightarrow> string list \<times> string" where
  "replace_named_ref warnings m =
     (warnings @ [named_ref_warning (group m 1)], [BSL] @ ''k<'' @ group m 1 @ ''>'')"

definition handle_named_group_references :: "string \<Rightarrow> string \<times> string list" where
  "handle_named_group_references regex0 =
     (let warnings = [] in
      case re_sub_effect re_named_ref False replace_named_ref warnings regex0 of
        (warnings, regex) \<Rightarrow> (regex, warnings))"

text \<open>\<open>handle_atomic_groups\<close> (source lines 203-208).\<close>

definition atomic_warning :: string where
  "atomic_warning =
     ''Atomic groups are not supported in JavaScript. Converted to non-capturing groups.''"

definition handle_atomic_groups :: "string \<Rightarrow> string \<times> string list" where
  "handle_atomic_groups regex =
     (let warnings = [] in
      if str_in ''(?>'' regex
      then (str_replace ''(?>'' ''(?:'' regex, warnings @ [atomic_warning])
      else (regex, warnings))"

text \<open>\<open>handle_unicode_properties\<close> (source lines 210-214).\<close>

definition unicode_warning :: string where
  "unicode_warning =
     ''Unicode property escapes require the '' @ [SQ] @ ''u'' @ [SQ] @ '' flag in JavaScript.''"

definition handle_unicode_properties :: "string \<Rightarrow> string \<times> string list" where
  "handle_unicode_properties regex =
     (let warnings = [] in
      if str_in [BSL, CHR ''p''] regex \<or> str_in [BSL, CHR ''P''] regex
      then (regex, warnings @ [unicode_warning])
      else (regex, warnings))"

text \<open>\<open>check_unsupported_features\<close> (source lines 216-220).\<close>

definition conditional_warning :: string where
  "conditional_warning =
     ''Conditional patterns are not supported in JavaScript. '' @
     ''This part of the regex may not work as expected.''"

definition check_unsupported_features :: "string \<Rightarrow> string list" where
  "check_unsupported_features regex =
     (let warnings = [] in
      if str_in ''(?(1)'' regex then warnings @ [conditional_warning] else warnings)"

text \<open>\<open>preserve_complex_pattern\<close> (source lines 254-264).\<close>

definition preserve_complex_pattern :: "string \<Rightarrow> string" where
  "preserve_complex_pattern regex0 =
     (let regex = re_sub re_preserve_optional False (\<lambda>m. ''(?:'' @ group m 1 @ '')?'') regex0;
          regex = re_sub re_preserve_end False (\<lambda>m. group m 0) regex;
          regex = re_sub re_preserve_repeated False (\<lambda>m. group m 0) regex
      in regex)"

section \<open>The pipeline driver\<close>

definition lookbehind_warning :: string where
  "lookbehind_warning = ''Lookbehind assertions have limited support in JavaScript.''"

definition any_char_warning :: string where
  "any_char_warning =
     [SQ, BSL] @ ''N'' @ [SQ] @ '' is converted to '' @ [SQ] @ ''[^'' @ [BSL] @ ''n]'' @ [SQ] @
     '', which may not behave identically in all cases.''"

text \<open>
  The body of the \<open>try\<close> statement of \<open>py_to_js_regex\<close> (source lines 47-132), one
  binding per assignment, in the order of the source. It ends in \<open>Inr\<close>, the \<open>return\<close> of
  line 132; \<open>Inl\<close> stands for a raised \<open>RegexConversionError\<close>, with its message and the
  steps recorded when it was raised (no statement of the source raises it).
\<close>

definition try_body ::
  "string \<Rightarrow> int \<Rightarrow> bool \<Rightarrow> string list \<Rightarrow> string list \<Rightarrow>
   (string \<times> string list) + (string \<times> string list \<times> string list)" where
  "try_body original_regex py_flags0 verbose warnings_list0 steps0 =
     (let py_regex = py_strip [SQ, DQ] (py_lstrip ''r'' original_regex);
          steps = (if verbose \<and> py_regex \<noteq> original_regex
                   then steps0 @ [''Stripped '' @ [SQ] @ ''r'' @ [SQ] @ '' prefix and quotes: '' @ py_regex]
                   else steps0);
          is_verbose = (py_flags0 AND VERBOSE \<noteq> 0);
          py_regex = (if is_verbose then handle_verbose_mode py_regex else py_regex);
          py_flags = (if is_verbose then py_flags0 AND NOT VERBOSE else py_flags0);
          steps = (if is_verbose \<and> verbose
                   then steps @ [''Handled verbose mode: '' @ py_regex] else steps);
          js_regex = conservative_conversion py_regex;
          steps = (if verbose \<and> js_regex \<noteq> py_regex
                   then steps @ [''Converted Python-specific syntax: '' @ js_regex] else steps);
          ref_warnings = snd (handle_named_group_references js_regex);
          js_regex = fst (handle_named_group_references js_regex);
          warnings_list = warnings_list0 @ ref_warnings;
          steps = (if verbose \<and> ref_warnings \<noteq> []
                   then steps @ [''Handled named group references: '' @ js_regex] else steps);
          js_regex = re_sub re_noncapturing False (\<lambda>m. ''(?:'') js_regex;
          steps = (if verbose then steps @ [''Handled non-capturing groups: '' @ js_regex]
                   else steps);
          js_regex = preserve_complex_pattern js_regex;
          steps = (if verbose then steps @ [''Preserved complex patterns: '' @ js_regex]
                   else steps);
          atomic_warnings = snd (handle_atomic_groups js_regex);
          js_regex = fst (handle_atomic_groups js_regex);
          warnings_list = warnings_list @ atomic_warnings;
          steps = (if verbose \<and> atomic_warnings \<noteq> []
                   then steps @ [''Handled atomic groups: '' @ js_regex] else steps);
          unicode_warnings = snd (handle_unicode_properties js_regex);
          js_regex = fst (handle_unicode_properties js_regex);
          warnings_list = warnings_list @ unicode_warnings;
          steps = (if verbose \<and> unicode_warnings \<noteq> []
                   then steps @ [''Handled Unicode property escapes: '' @ js_regex] else steps);
          has_lookbehind = (str_in ''(?<='' js_regex \<or> str_in ''(?<!'' js_regex);
          warnings_list = (if has_lookbehind then warnings_list @ [lookbehind_warning]
                           else warnings_list);
          steps = (if has_lookbehind \<and> verbose
                   then steps @ [''Warned about lookbehind assertions''] else steps);
          js_regex = str_replace [BSL, CHR ''a''] ([BSL] @ ''x07'') js_regex;
          has_any_char = str_in [BSL, CHR ''N''] js_regex;
          js_regex = (if has_any_char
                      then str_replace [BSL, CHR ''N''] (''[^'' @ [BSL] @ ''n]'') js_regex
                      else js_regex);
          warnings_list = (if has_any_char then warnings_list @ [any_char_warning]
                           else warnings_list);
          steps = (if has_any_char \<and> verbose
                   then steps @ [''Converted additional escape sequences''] else steps);
          js_regex = re_sub re_newline False (\<lambda>m. [BSL] @ ''n'') js_regex;
          steps = (if verbose then steps @ [''Ensured pattern preservation: '' @ js_regex]
                   else steps);
          unsupported_warnings = check_unsupported_features js_regex;
          warnings_list = warnings_list @ unsupported_warnings;
          steps = (if verbose \<and> unsupported_warnings \<noteq> []
                   then steps @ [''Checked for unsupported features''] else steps);
          js_regex = balance_parentheses js_regex;
          steps = (if verbose then steps @ [''Ensured balanced parentheses: '' @ js_regex]
                   else steps);
          js_flags = handle_flags py_flags;
          steps = (if verbose then steps @ [''Handled flags: '' @ js_flags] else steps);
          js_regex = ''/'' @ js_regex @ ''/'' @ js_flags;
          steps = (if verbose then steps @ [''Final JavaScript regex: '' @ js_regex] else steps)
      in Inr (js_regex, warnings_list, steps))"

text \<open>
  \<open>py_to_js_regex\<close> (source lines 24-135): the two lists start empty at every call,
  and the \<open>except\<close> clause turns a raised error into \<open>(None, [message], steps)\<close>.
\<close>

definition py_to_js_regex ::
  "string \<Rightarrow> int \<Rightarrow> bool \<Rightarrow> string option \<times> string list \<times> string list" where
  "py_to_js_regex py_regex py_flags verbose =
     (let warnings_list = [];
          steps = [];
          original_regex = py_regex;
          steps = (if verbose then steps @ [''Original Python regex: '' @ original_regex]
                   else steps)
      in case try_body original_regex py_flags verbose warnings_list steps of
           Inr (js_regex, warnings_list, steps) \<Rightarrow> (Some js_regex, warnings_list, steps)
         | Inl (message, steps) \<Rightarrow> (None, [message], steps))"

section \<open>Notions used in the statements\<close>

text \<open>
  The balancer as a recursion over the text that is left, with the number of open
  parentheses in place of the stack.
\<close>

fun balance_scan :: "nat \<Rightarrow> string \<Rightarrow> string" where
  "balance_scan d [] = replicate d (CHR '')'')"
| "balance_scan d (c # cs) =
     (if c = BSL then
        (case cs of [] \<Rightarrow> BSL # replicate d (CHR '')'')
                  | e # es \<Rightarrow> BSL # e # balance_scan d es)
      else if c = CHR ''('' then c # balance_scan (Suc d) cs
      else if c = CHR '')'' then
        (if 0 < d then c # balance_scan (d - 1) cs else BSL # c # balance_scan d cs)
      else c # balance_scan d cs)"

text \<open>The number of positions of \<open>s\<close> at which \<open>sub\<close> occurs.\<close>

fun count_occ :: "string \<Rightarrow> string \<Rightarrow> nat" where
  "count_occ sub [] = 0"
| "count_occ sub (c # cs) = (if prefix sub (c # cs) then 1 else 0) + count_occ sub cs"

text \<open>
  A string is border-free when none of its proper prefixes is also a suffix of it: two
  occurrences of such a string never overlap.
\<close>

definition border_free :: "string \<Rightarrow> bool" where
  "border_free old = list_all (\<lambda>k. take k old \<noteq> drop (length old - k) old) [1..<length old]"

text \<open>A match object that an attempt at some position of some text yields.\<close>

definition is_match :: "re \<Rightarrow> bool \<Rightarrow> match_obj \<Rightarrow> bool" where
  "is_match r ml m = (\<exists>adv bef aft. match_at r ml adv bef aft = Some (length (fst m), snd m) \<and>
     fst m = take (length (fst m)) aft)"

text \<open>
  The state \<open>t\<close> extends \<open>s\<close>: it lies further to the right in the same text.
\<close>

fun extends :: "mstate \<Rightarrow> mstate \<Rightarrow> bool" where
  "extends (bef, aft, caps) (bef', aft', caps') = (\<exists>w. aft = w @ aft' \<and> bef' = rev w @ bef)"

text \<open>Every \<open>#\<close> of the text stands right after a backslash; \<open>bef\<close> is the text before.\<close>

fun hash_escaped :: "string \<Rightarrow> string \<Rightarrow> bool" where
  "hash_escaped bef [] = True"
| "hash_escaped bef (c # cs) = ((c \<noteq> CHR ''#'' \<or> prefix [BSL] bef) \<and> hash_escaped (c # bef) cs)"

text \<open>
  A pattern without any whitespace, without a \<open>#\<close> other than right after a backslash, and
  without the marker \<open>(?x)\<close>.
\<close>

definition spaceless :: "string \<Rightarrow> bool" where
  "spaceless s = (list_all (\<lambda>c. \<not> is_space c) s \<and> hash_escaped [] s \<and> \<not> str_in ''(?x)'' s)"

text \<open>
  A dense pattern: no whitespace outside a character class, no \<open>#\<close> other than right
  after a backslash, and no marker \<open>(?x)\<close>. A character class is a span from \<open>[\<close> to
  the next \<open>]\<close>; a backslash goes with the character after it, also inside a class.
\<close>

fun space_outside_class :: "bool \<Rightarrow> string \<Rightarrow> bool" where
  "space_outside_class inside [] = False"
| "space_outside_class inside [c] = (\<not> inside \<and> is_space c)"
| "space_outside_class inside (c # d # cs) =
     (if c = BSL then space_outside_class inside cs
      else if inside then space_outside_class (c \<noteq> CHR '']'') (d # cs)
      else if c = CHR ''['' then space_outside_class True (d # cs)
      else if is_space c then True
      else space_outside_class False (d # cs))"

definition dense :: "string \<Rightarrow> bool" where
  "dense s = (\<not> space_outside_class False s \<and> hash_escaped [] s \<and> \<not> str_in ''(?x)'' s)"

text \<open>An occurrence of \<open>(?P=name)\<close> starts the text; the number of such positions.\<close>

definition named_ref_at :: "string \<Rightarrow> bool" where
  "named_ref_at s =
     (prefix ''(?P='' s \<and> takeWhile is_word (drop 4 s) \<noteq> [] \<and>
      prefix '')'' (dropWhile is_word (drop 4 s)))"

fun count_named_refs :: "string \<Rightarrow> nat" where
  "count_named_refs [] = 0"
| "count_named_refs (c # cs) = (if named_ref_at (c # cs) then 1 else 0) + count_named_refs cs"

text \<open>
  The number of positions of a text at which a predicate on the text from there on holds;
  \<open>count_named_refs\<close> and \<open>count_occ\<close> are instances. Two texts agree for such a
  predicate when it cannot tell them apart behind any text put before them, and counts
  the same number of positions in both.
\<close>

fun count_at :: "(string \<Rightarrow> bool) \<Rightarrow> string \<Rightarrow> nat" where
  "count_at A [] = 0"
| "count_at A (c # cs) = (if A (c # cs) then 1 else 0) + count_at A cs"

definition agree :: "(string \<Rightarrow> bool) \<Rightarrow> string \<Rightarrow> string \<Rightarrow> bool" where
  "agree A v v' = ((\<forall>w. A (w @ v) = A (w @ v')) \<and> count_at A v = count_at A v')"

text \<open>A diagnostic of the named-reference rule, told by the words it begins with.\<close>

definition named_ref_diagnostic :: "string \<Rightarrow> bool" where
  "named_ref_diagnostic w = prefix ''Named group reference '' w"

text \<open>
  The pattern at the stages of the driver: after the stripping and the normalizer, after
  the group rules, after the escape of the bell character, at the balancer; and the
  diagnostics in the order in which the driver collects them.
\<close>

definition stripped :: "string \<Rightarrow> int \<Rightarrow> string" where
  "stripped p f =
     (if f AND VERBOSE \<noteq> 0 then handle_verbose_mode (py_strip [SQ, DQ] (py_lstrip ''r'' p))
      else py_strip [SQ, DQ] (py_lstrip ''r'' p))"

definition after_groups :: "string \<Rightarrow> string" where
  "after_groups t =
     preserve_complex_pattern (re_sub re_noncapturing False (\<lambda>m. ''(?:'')
       (fst (handle_named_group_references (conservative_conversion t))))"

definition after_atomic :: "string \<Rightarrow> string" where
  "after_atomic t =
     str_replace [BSL, CHR ''a''] ([BSL] @ ''x07'')
       (fst (handle_unicode_properties (fst (handle_atomic_groups (after_groups t)))))"

definition rewritten :: "string \<Rightarrow> string" where
  "rewritten t =
     re_sub re_newline False (\<lambda>m. [BSL] @ ''n'')
       (if str_in [BSL, CHR ''N''] (after_atomic t)
        then str_replace [BSL, CHR ''N''] (''[^'' @ [BSL] @ ''n]'') (after_atomic t)
        else after_atomic t)"

definition conv_warnings :: "string \<Rightarrow> string list" where
  "conv_warnings t =
     snd (handle_named_group_references (conservative_conversion t)) @
     snd (handle_atomic_groups (after_groups t)) @
     snd (handle_unicode_properties (fst (handle_atomic_groups (after_groups t)))) @
     (if str_in ''(?<='' (fst (handle_unicode_properties (fst (handle_atomic_groups (after_groups t))))) \<or>
         str_in ''(?<!'' (fst (handle_unicode_properties (fst (handle_atomic_groups (after_groups t)))))
      then [lookbehind_warning] else []) @
     (if str_in [BSL, CHR ''N''] (after_atomic t) then [any_char_warning] else []) @
     check_unsupported_features (rewritten t)"

section \<open>Properties of the delimiter balancer\<close>

lemma close_loop_replicate: "close_loop stack result = result @ replicate (length stack) (CHR '')'')"
proof (induction "length stack" arbitrary: stack result)
  case 0
  then show ?case by simp
next
  case (Suc n)
  then obtain p ps where s: "stack = p # ps" by (cases stack) auto
  have "length (butlast (p # ps)) = n" using Suc(2) s by simp
  then have "close_loop (butlast (p # ps)) (result @ '')'') =
      (result @ '')'') @ replicate n (CHR '')'')" using Suc(1) by blast
  then show ?case using s Suc(2) by (simp add: replicate_append_same)
qed

lemma balance_loop_scan:
  "(case balance_loop regex i stack result of (st, res) \<Rightarrow> close_loop st res) =
     result @ balance_scan (length stack) (drop i regex)"
proof (induction regex i stack result rule: balance_loop.induct)
  case (1 regex i stack result)
  show ?case
  proof (cases "i < length regex")
    case False
    then show ?thesis by (subst balance_loop.simps) (simp add: close_loop_replicate)
  next
    case True
    then obtain cs where d: "drop i regex = regex ! i # cs" and cs: "cs = drop (Suc i) regex"
      by (metis Cons_nth_drop_Suc)
    show ?thesis
    proof (cases "regex ! i = BSL")
      case b: True
      have ih: "(case balance_loop regex (i + 2) stack (result @ take 2 (drop i regex)) of
          (st, res) \<Rightarrow> close_loop st res) =
          (result @ take 2 (drop i regex)) @ balance_scan (length stack) (drop (i + 2) regex)"
        using "1.IH"(1) [OF True b] .
      have d2: "drop (i + 2) regex = drop 1 cs" using cs by simp
      show ?thesis
        using True b ih d d2 by (subst balance_loop.simps) (cases cs; simp)
    next
      case nb: False
      show ?thesis
      proof (cases "regex ! i = CHR ''(''")
        case o: True
        show ?thesis using True nb o "1.IH"(2) [OF True nb o] d cs
          by (subst balance_loop.simps) simp
      next
        case no: False
        show ?thesis
        proof (cases "regex ! i = CHR '')''")
          case c: True
          show ?thesis
          proof (cases "stack \<noteq> []")
            case s: True
            show ?thesis using True nb no c s "1.IH"(3) [OF True nb no c s] d cs
              by (subst balance_loop.simps) simp
          next
            case s: False
            show ?thesis using True nb no c s "1.IH"(4) [OF True nb no c s] d cs
              by (subst balance_loop.simps) simp
          qed
        next
          case nc: False
          show ?thesis using True nb no nc "1.IH"(5) [OF True nb no nc] d cs
            by (subst balance_loop.simps) simp
        qed
      qed
    qed
  qed
qed

lemma balance_parentheses_scan: "balance_parentheses regex = balance_scan 0 regex"
  using balance_loop_scan [of regex 0 "[]" "[]"] by (simp add: balance_parentheses_def)

lemma unescaped_count_plain:
  "c \<noteq> BSL \<Longrightarrow> unescaped_count x (c # r) = (if c = x then 1 else 0) + unescaped_count x r"
  by (cases r) auto

lemma unescaped_count_pair: "unescaped_count x (BSL # e # r) = unescaped_count x r"
  by simp

lemma dangling_escape_plain: "c \<noteq> BSL \<Longrightarrow> dangling_escape (c # r) = dangling_escape r"
  by (cases r) auto

lemma paren_not_bsl [simp]: "CHR ''('' \<noteq> BSL" "CHR '')'' \<noteq> BSL" "BSL \<noteq> CHR ''(''"
  "BSL \<noteq> CHR '')''"
  by (simp_all add: BSL_def)

lemma unescaped_count_closers:
  "unescaped_count x (replicate d (CHR '')'')) = (if x = CHR '')'' then d else 0)"
  by (induction d) (simp_all add: unescaped_count_plain)

text \<open>
  With \<open>d\<close> parentheses open, the balancer's output has \<open>d\<close> more non-escaped closers
  than openers, unless the input ends in a dangling escape.
\<close>

lemma balance_scan_balanced:
  "\<not> dangling_escape s \<Longrightarrow>
   unescaped_count (CHR ''('') (balance_scan d s) + d =
   unescaped_count (CHR '')'') (balance_scan d s)"
proof (induction d s rule: balance_scan.induct)
  case (1 d)
  then show ?case by (simp add: unescaped_count_closers)
next
  case (2 d c cs)
  show ?case
  proof (cases "c = BSL")
    case b: True
    show ?thesis
    proof (cases cs)
      case Nil
      then show ?thesis using "2.prems" b by simp
    next
      case (Cons e es)
      have "\<not> dangling_escape es" using "2.prems" b Cons by simp
      then show ?thesis using "2.IH"(1) [OF b Cons] b Cons by simp
    qed
  next
    case nb: False
    then have nd: "\<not> dangling_escape cs" using "2.prems" by (simp add: dangling_escape_plain)
    show ?thesis
    proof (cases "c = CHR ''(''")
      case o: True
      show ?thesis using "2.IH"(2) [OF nb o nd] nb o by (simp add: unescaped_count_plain)
    next
      case no: False
      show ?thesis
      proof (cases "c = CHR '')''")
        case c: True
        show ?thesis
        proof (cases "0 < d")
          case p: True
          show ?thesis using "2.IH"(3) [OF nb no c p nd] nb no c p
            by (simp add: unescaped_count_plain)
        next
          case z: False
          show ?thesis using "2.IH"(4) [OF nb no c z nd] nb no c z by simp
        qed
      next
        case nc: False
        show ?thesis using "2.IH"(5) [OF nb no nc nd] nb no nc
          by (simp add: unescaped_count_plain)
      qed
    qed
  qed
qed

lemma balance_scan_subseq: "subseq s (balance_scan d s)"
proof (induction d s rule: balance_scan.induct)
  case (1 d)
  then show ?case by simp
next
  case (2 d c cs)
  show ?case
  proof (cases "c = BSL")
    case b: True
    show ?thesis
    proof (cases cs)
      case Nil
      then show ?thesis using b by simp
    next
      case (Cons e es)
      then show ?thesis using "2.IH"(1) [OF b Cons] b by simp
    qed
  next
    case nb: False
    show ?thesis
    proof (cases "c = CHR ''(''")
      case o: True
      show ?thesis using "2.IH"(2) [OF nb o] nb o by simp
    next
      case no: False
      show ?thesis
      proof (cases "c = CHR '')''")
        case c: True
        show ?thesis
        proof (cases "0 < d")
          case p: True
          show ?thesis using "2.IH"(3) [OF nb no c p] nb no c p by simp
        next
          case z: False
          show ?thesis using "2.IH"(4) [OF nb no c z] nb no c z by (simp add: subseq_Cons')
        qed
      next
        case nc: False
        show ?thesis using "2.IH"(5) [OF nb no nc] nb no nc by simp
      qed
    qed
  qed
qed

lemma balanced_without_dangling_escape:
  "\<not> dangling_escape s \<Longrightarrow>
   unescaped_count (CHR ''('') (balance_parentheses s) =
   unescaped_count (CHR '')'') (balance_parentheses s)"
  using balance_scan_balanced [of s 0] by (simp add: balance_parentheses_scan)

lemma input_kept: "subseq s (balance_parentheses s)"
  by (simp add: balance_parentheses_scan balance_scan_subseq)

section \<open>Properties of str.replace\<close>

lemma border_freeD:
  assumes "border_free old" "u \<noteq> []" "length u < length old" "prefix u old" "suffix u old"
  shows False
proof -
  let ?k = "length u"
  have k: "?k \<in> set [1..<length old]" using assms(2,3) by (cases u) auto
  have t: "take ?k old = u" using assms(4) by (auto simp: prefix_def)
  have d: "drop (length old - ?k) old = u" using assms(5) by (auto simp: suffix_def)
  from assms(1) k have "take ?k old \<noteq> drop (length old - ?k) old"
    unfolding border_free_def list_all_iff by blast
  with t d show False by simp
qed

lemma prefix_of_shorter:
  assumes "prefix old (u @ r)" "length u \<le> length old"
  shows "prefix u old"
proof -
  from assms(1) obtain zs where e: "u @ r = old @ zs" by (auto simp: prefix_def)
  have "take (length u) (u @ r) = take (length u) (old @ zs)" using e by simp
  then have "u = take (length u) old" using assms(2) by simp
  then show ?thesis by (metis take_is_prefix)
qed

lemma no_overlap:
  assumes bf: "border_free old" and p: "prefix old s" and j: "0 < j" "j < length old"
  shows "\<not> prefix old (drop j s)"
proof
  assume q: "prefix old (drop j s)"
  from p obtain r where s: "s = old @ r" by (auto simp: prefix_def)
  let ?u = "drop j old"
  have dj: "drop j s = ?u @ r" using s j by simp
  have u1: "?u \<noteq> []" using j by simp
  have u2: "length ?u < length old" using j by simp
  have "prefix ?u old" using prefix_of_shorter [of old ?u r] q dj u2 by simp
  moreover have "suffix ?u old" by (rule suffix_drop)
  ultimately show False using border_freeD [OF bf u1 u2] by blast
qed

lemma str_replace_at_match:
  "old \<noteq> [] \<Longrightarrow> str_replace old new (old @ ys) = new @ str_replace old new ys"
  by (cases old) auto

lemma straddle_free:
  assumes bf: "border_free old" and xs: "xs \<noteq> []" and p: "prefix old (xs @ old @ ys)"
  shows "prefix old xs"
proof (rule ccontr)
  assume n: "\<not> prefix old xs"
  from p have "prefix old xs \<or> (\<exists>us. old = xs @ us \<and> prefix us (old @ ys))"
    by (simp only: prefix_append)
  with n obtain us where us: "old = xs @ us" "prefix us (old @ ys)" by blast
  have u1: "us \<noteq> []" using us(1) n by auto
  have l: "length us < length old" using us(1) xs by (cases xs) auto
  have "prefix us old \<or> (\<exists>vs. us = old @ vs \<and> prefix vs ys)"
    using us(2) by (simp only: prefix_append)
  then have u3: "prefix us old" using l by auto
  have u4: "suffix us old" using us(1) by (auto simp: suffix_def)
  show False using border_freeD [OF bf u1 l u3 u4] .
qed

lemma str_replace_split:
  assumes ne: "old \<noteq> []" and bf: "border_free old"
  shows "str_replace old new (xs @ old @ ys) =
         str_replace old new xs @ new @ str_replace old new ys"
proof (induction xs rule: length_induct)
  case (1 xs)
  show ?case
  proof (cases xs)
    case Nil
    then show ?thesis using str_replace_at_match [OF ne] ne by simp
  next
    case (Cons c cs)
    show ?thesis
    proof (cases "prefix old (xs @ old @ ys)")
      case True
      then have px: "prefix old xs" using straddle_free [OF bf] Cons by blast
      then obtain r where r: "xs = old @ r" by (auto simp: prefix_def)
      have "length r < length xs" using r ne by simp
      then have ih: "str_replace old new (r @ old @ ys) =
         str_replace old new r @ new @ str_replace old new ys" using 1 by blast
      have "str_replace old new (xs @ old @ ys) = new @ str_replace old new (r @ old @ ys)"
        using r str_replace_at_match [OF ne, of new "r @ old @ ys"] by simp
      moreover have "str_replace old new xs = new @ str_replace old new r"
        using r str_replace_at_match [OF ne, of new r] by simp
      ultimately show ?thesis using ih by simp
    next
      case False
      then have nx: "\<not> prefix old xs" by (auto simp: prefix_def)
      have "length cs < length xs" using Cons by simp
      then have ih: "str_replace old new (cs @ old @ ys) =
         str_replace old new cs @ new @ str_replace old new ys" using 1 by blast
      show ?thesis using False nx ne ih Cons by simp
    qed
  qed
qed

lemma str_replace_keeps_prefix:
  "new \<noteq> [] \<Longrightarrow> hd new \<notin> set w \<Longrightarrow> prefix w (str_replace old new s) \<Longrightarrow> prefix w s"
proof (induction old new s arbitrary: w rule: str_replace.induct)
  case (1 old new)
  then show ?case by (cases w; cases new) (auto split: if_splits)
next
  case (2 old new c cs)
  show ?case
  proof (cases w)
    case Nil
    then show ?thesis by simp
  next
    case (Cons d w')
    have hn: "hd new \<noteq> d" "hd new \<notin> set w'" using "2.prems"(2) Cons by auto
    have starts: "\<And>r. \<not> prefix (d # w') (new @ r)"
      using "2.prems"(1) hn(1) by (cases new) auto
    show ?thesis
    proof (cases "old = [] \<or> prefix old (c # cs)")
      case True
      then show ?thesis using "2.prems"(3) Cons starts by (auto split: if_splits)
    next
      case False
      then have o: "old \<noteq> []" "\<not> prefix old (c # cs)" by auto
      from "2.prems"(3) Cons o have dc: "d = c" and p: "prefix w' (str_replace old new cs)"
        by auto
      have "prefix w' cs" using "2.IH"(3) [OF o "2.prems"(1) hn(2) p] .
      then show ?thesis using Cons dc by simp
    qed
  qed
qed

lemma str_replace_gives_prefix:
  assumes "old \<noteq> []" "hd old \<notin> set w"
  shows "prefix w s \<Longrightarrow> prefix w (str_replace old new s)"
  using assms
proof (induction w arbitrary: s)
  case Nil
  then show ?case by simp
next
  case (Cons d w)
  then obtain cs where s: "s = d # cs" and p: "prefix w cs" by (cases s) auto
  have "\<not> prefix old (d # cs)" using Cons(3,4) by (cases old) auto
  then have "str_replace old new s = d # str_replace old new cs" using s Cons(3) by simp
  moreover have "prefix w (str_replace old new cs)" using Cons p by simp
  ultimately show ?case by simp
qed

lemma str_in_append:
  "str_in old (xs @ r) = ((\<exists>j<length xs. prefix old (drop j xs @ r)) \<or> str_in old r)"
proof (induction xs)
  case Nil
  then show ?case by simp
next
  case (Cons x xs)
  have "(\<exists>j<length (x # xs). prefix old (drop j (x # xs) @ r)) =
        (prefix old (x # xs @ r) \<or> (\<exists>j<length xs. prefix old (drop j xs @ r)))"
    (is "?L = ?R")
  proof
    assume ?L
    then obtain j where j: "j < length (x # xs)" "prefix old (drop j (x # xs) @ r)" by blast
    show ?R
    proof (cases j)
      case 0
      then show ?thesis using j by simp
    next
      case (Suc k)
      then show ?thesis using j by auto
    qed
  next
    assume ?R
    then show ?L
    proof
      assume "prefix old (x # xs @ r)"
      then have "0 < length (x # xs) \<and> prefix old (drop 0 (x # xs) @ r)" by simp
      then show ?L by blast
    next
      assume "\<exists>j<length xs. prefix old (drop j xs @ r)"
      then obtain j where "j < length xs" "prefix old (drop j xs @ r)" by blast
      then have "Suc j < length (x # xs) \<and> prefix old (drop (Suc j) (x # xs) @ r)" by simp
      then show ?L by blast
    qed
  qed
  then show ?case using Cons by simp
qed

text \<open>No occurrence of \<open>old\<close> is left when \<open>new\<close> cannot start or complete one.\<close>

lemma str_replace_no_residue:
  assumes old: "old = a # w" and new: "new \<noteq> []" and h: "hd new \<notin> set w"
    and t: "a \<notin> set (tl new)" and d1: "\<not> prefix old new" and d2: "\<not> prefix new old"
  shows "\<not> str_in old (str_replace old new s)"
proof (induction s rule: length_induct)
  case (1 s)
  show ?case
  proof (cases s)
    case Nil
    then show ?thesis using old by simp
  next
    case (Cons c cs)
    show ?thesis
    proof (cases "prefix old (c # cs)")
      case True
      let ?R = "str_replace old new (drop (length old) (c # cs))"
      have out: "str_replace old new s = new @ ?R" using True Cons old by simp
      have "length (drop (length old) (c # cs)) < length s" using Cons old by simp
      then have ih: "\<not> str_in old ?R" using 1 by blast
      have "\<not> prefix old (drop j new @ ?R)" if j: "j < length new" for j
      proof (cases j)
        case 0
        have "\<not> prefix old (new @ ?R)"
        proof
          assume "prefix old (new @ ?R)"
          then have "prefix old new \<or> (\<exists>us. old = new @ us \<and> prefix us ?R)"
            by (simp only: prefix_append)
          then show False using d1 d2 by (auto simp: prefix_def)
        qed
        then show ?thesis using 0 by simp
      next
        case (Suc k)
        have "drop j new \<noteq> []" using j by simp
        then obtain e es where e: "drop j new = e # es" by (cases "drop j new") auto
        have "e \<in> set (drop j new)" using e by simp
        then have "e \<in> set (tl new)" using Suc by (metis drop_Suc in_set_dropD)
        then have "e \<noteq> a" using t by auto
        then show ?thesis using e old by simp
      qed
      then show ?thesis using out ih by (simp add: str_in_append)
    next
      case False
      let ?R = "str_replace old new cs"
      have "old \<noteq> []" using old by simp
      then have out: "str_replace old new s = c # ?R" using False Cons by simp
      have "length cs < length s" using Cons by simp
      then have ih: "\<not> str_in old ?R" using 1 by blast
      have "\<not> prefix old (c # ?R)"
      proof
        assume p: "prefix old (c # ?R)"
        then have ca: "c = a" and pw: "prefix w ?R" using old by auto
        have "prefix w cs" using str_replace_keeps_prefix [OF new h pw] .
        then show False using False ca old by simp
      qed
      then show ?thesis using out ih by simp
    qed
  qed
qed

lemma count_occ_skip:
  assumes bf: "border_free old" and p: "prefix old s" and ne: "old \<noteq> []"
  shows "count_occ old s = Suc (count_occ old (drop (length old) s))"
proof -
  have skip: "count_occ old (drop j s) = count_occ old (drop (length old) s)"
    if "0 < j" "j \<le> length old" for j
    using that
  proof (induction "length old - j" arbitrary: j)
    case 0
    then show ?case by simp
  next
    case (Suc n)
    then have j: "0 < j" "j < length old" by auto
    have len: "j < length s" using j p by (auto simp: prefix_def)
    then obtain c cs where d: "drop j s = c # cs" by (cases "drop j s") auto
    have cs: "cs = drop (Suc j) s" using d by (metis drop_Suc drop_drop list.sel(3) tl_drop plus_1_eq_Suc)
    have "\<not> prefix old (drop j s)" using no_overlap [OF bf p j] .
    then have "count_occ old (drop j s) = count_occ old (drop (Suc j) s)" using d cs by simp
    moreover have "count_occ old (drop (Suc j) s) = count_occ old (drop (length old) s)"
      using Suc(1) [of "Suc j"] Suc(2) j by simp
    ultimately show ?case by simp
  qed
  from p ne obtain c cs where s: "s = c # cs" by (cases s) auto
  have "count_occ old s = 1 + count_occ old (drop 1 s)" using s p by simp
  moreover have "count_occ old (drop 1 s) = count_occ old (drop (length old) s)"
    using skip [of 1] ne by (cases old) auto
  ultimately show ?thesis by simp
qed

lemma str_replace_count:
  assumes bf: "border_free old" and ne: "old \<noteq> []"
  shows "count_list (str_replace old new s) x + count_occ old s * count_list old x =
         count_list s x + count_occ old s * count_list new x"
proof (induction s rule: length_induct)
  case (1 s)
  show ?case
  proof (cases s)
    case Nil
    then show ?thesis using ne by simp
  next
    case (Cons c cs)
    show ?thesis
    proof (cases "prefix old (c # cs)")
      case True
      let ?r = "drop (length old) s"
      have s: "s = old @ ?r" using True Cons by (auto simp: prefix_def)
      have "length ?r < length s" using Cons ne by simp
      then have ih: "count_list (str_replace old new ?r) x + count_occ old ?r * count_list old x =
         count_list ?r x + count_occ old ?r * count_list new x" using 1 by blast
      have out: "str_replace old new s = new @ str_replace old new ?r" using True Cons ne by simp
      have ps: "prefix old s" using True Cons by simp
      have occ: "count_occ old s = Suc (count_occ old ?r)"
        using count_occ_skip [OF bf ps ne] .
      have cnt: "count_list s x = count_list old x + count_list ?r x"
        by (subst s) (simp only: count_list_append)
      show ?thesis using ih out occ cnt by (simp add: algebra_simps)
    next
      case False
      have "length cs < length s" using Cons by simp
      then have ih: "count_list (str_replace old new cs) x + count_occ old cs * count_list old x =
         count_list cs x + count_occ old cs * count_list new x" using 1 by blast
      show ?thesis using False Cons ne ih by simp
    qed
  qed
qed

section \<open>Properties of the scan and of the matcher\<close>

lemma scan_loop_partition:
  "concat (map (case_sum (\<lambda>c. [c]) fst) (scan_loop r ml adv bef aft)) = aft"
proof (induction r ml adv bef aft rule: scan_loop.induct)
  case (1 r ml adv bef aft)
  show ?case
  proof (cases "match_at r ml adv bef aft")
    case None
    show ?thesis
    proof (cases aft)
      case Nil
      then show ?thesis using None by (subst scan_loop.simps) simp
    next
      case (Cons c cs)
      then show ?thesis using None 1(1) [OF None Cons] by (subst scan_loop.simps) simp
    qed
  next
    case (Some a)
    obtain n caps where a: "a = (n, caps)" by (cases a)
    show ?thesis using 1(2) [OF Some a [symmetric]] Some a by (subst scan_loop.simps) simp
  qed
qed

lemma group0: "group m 0 = fst m"
  by (cases m) simp

lemma re_sub_id: "re_sub r ml (\<lambda>m. group m 0) s = s"
  by (simp add: re_sub_def re_scan_def group0 scan_loop_partition)

lemma scan_loop_matches:
  "Inr m \<in> set (scan_loop r ml adv bef aft) \<Longrightarrow> is_match r ml m"
proof (induction r ml adv bef aft rule: scan_loop.induct)
  case (1 r ml adv bef aft)
  show ?case
  proof (cases "match_at r ml adv bef aft")
    case None
    show ?thesis
    proof (cases aft)
      case Nil
      then show ?thesis using None "1.prems" by (subst (asm) scan_loop.simps) simp
    next
      case (Cons c cs)
      have "Inr m \<in> set (scan_loop r ml False (c # bef) cs)"
        using "1.prems" None Cons by (subst (asm) scan_loop.simps) simp
      then show ?thesis using "1.IH"(1) [OF None Cons] by simp
    qed
  next
    case (Some a)
    obtain n caps where a: "a = (n, caps)" by (cases a)
    have le: "n \<le> length aft" using match_at_bound(1) Some a by blast
    have "m = (take n aft, caps) \<or>
          Inr m \<in> set (scan_loop r ml (n = 0) (rev (take n aft) @ bef) (drop n aft))"
      using "1.prems" Some a by (subst (asm) scan_loop.simps) auto
    then show ?thesis
    proof
      assume m: "m = (take n aft, caps)"
      have "length (fst m) = n" using m le by simp
      then show ?thesis unfolding is_match_def using Some a m by auto
    next
      assume "Inr m \<in> set (scan_loop r ml (n = 0) (rev (take n aft) @ bef) (drop n aft))"
      then show ?thesis using "1.IH"(2) [OF Some a [symmetric]] by simp
    qed
  qed
qed

lemma re_sub_keeps:
  assumes "\<And>m. is_match r ml m \<Longrightarrow> repl m = fst m"
  shows "re_sub r ml repl s = s"
proof -
  have "case_sum (\<lambda>c. [c]) repl p = case_sum (\<lambda>c. [c]) fst p"
    if "p \<in> set (scan_loop r ml False [] s)" for p
  proof (cases p)
    case (Inl c)
    then show ?thesis by simp
  next
    case (Inr m)
    then have "is_match r ml m" using that scan_loop_matches by blast
    then show ?thesis using Inr assms by simp
  qed
  then have "map (case_sum (\<lambda>c. [c]) repl) (scan_loop r ml False [] s) =
        map (case_sum (\<lambda>c. [c]) fst) (scan_loop r ml False [] s)"
    by (simp cong: map_cong)
  then have "re_sub r ml repl s =
        concat (map (case_sum (\<lambda>c. [c]) fst) (scan_loop r ml False [] s))"
    unfolding re_sub_def re_scan_def by (simp only:)
  then show ?thesis by (simp only: scan_loop_partition)
qed

lemma re_sub_count:
  assumes "\<And>m. is_match r ml m \<Longrightarrow> count_list (repl m) x = count_list (fst m) x"
  shows "count_list (re_sub r ml repl s) x = count_list s x"
proof -
  have gen: "(\<And>m. Inr m \<in> set ps \<Longrightarrow> count_list (repl m) x = count_list (fst m) x) \<Longrightarrow>
     count_list (concat (map (case_sum (\<lambda>c. [c]) repl) ps)) x =
     count_list (concat (map (case_sum (\<lambda>c. [c]) fst) ps)) x" for ps
  proof (induction ps)
    case Nil
    then show ?case by simp
  next
    case (Cons p ps)
    then show ?case by (cases p) auto
  qed
  have "count_list (re_sub r ml repl s) x =
        count_list (concat (map (case_sum (\<lambda>c. [c]) fst) (re_scan r ml s))) x"
    unfolding re_sub_def re_scan_def
    by (rule gen) (auto dest: scan_loop_matches simp: assms)
  then show ?thesis by (simp add: re_scan_def scan_loop_partition)
qed

lemma extends_refl: "extends s s"
  by (cases s) simp

lemma extends_trans: "extends s t \<Longrightarrow> extends t u \<Longrightarrow> extends s u"
  by (cases s; cases t; cases u) auto

lemma step_lit_extends: "t \<in> set (step_lit w s) \<Longrightarrow> extends s t"
  by (cases s; cases t) (auto simp: prefix_def split: if_splits)

lemma step_atom_extends: "t \<in> set (step_atom a s) \<Longrightarrow> extends s t"
proof -
  obtain bef aft caps where s: "s = (bef, aft, caps)" by (cases s)
  assume "t \<in> set (step_atom a s)"
  then show ?thesis using s by (cases aft; cases t) (auto split: if_splits)
qed

lemma star_greedy_extends:
  "(\<And>s t. t \<in> set (f s) \<Longrightarrow> extends s t) \<Longrightarrow> t \<in> set (star_greedy f s) \<Longrightarrow> extends s t"
  "(\<And>s t. t \<in> set (f s) \<Longrightarrow> extends s t) \<Longrightarrow> t \<in> set (star_greedy_over f k ts) \<Longrightarrow>
     \<exists>u \<in> set ts. extends u t"
proof (induction f s and f k ts arbitrary: t and t rule: star_greedy_star_greedy_over.induct)
  case (1 f s)
  from "1.prems"(2) have "t = s \<or> t \<in> set (star_greedy_over f (remaining s) (f s))" by auto
  then show ?case
  proof
    assume "t = s"
    then show ?thesis by (simp add: extends_refl)
  next
    assume "t \<in> set (star_greedy_over f (remaining s) (f s))"
    then obtain u where u: "u \<in> set (f s)" "extends u t" using "1.IH" "1.prems"(1) by blast
    have "extends s u" using "1.prems"(1) u(1) by blast
    then show ?thesis using u(2) extends_trans by blast
  qed
next
  case (2 f k)
  then show ?case by simp
next
  case (3 f k u ts)
  from "3.prems"(2) have "(remaining u < k \<and> t \<in> set (star_greedy f u)) \<or>
      t \<in> set (star_greedy_over f k ts)" by (auto split: if_splits)
  then show ?case
  proof
    assume a: "remaining u < k \<and> t \<in> set (star_greedy f u)"
    then have "extends u t" using "3.IH"(1) "3.prems"(1) by blast
    then show ?thesis by auto
  next
    assume "t \<in> set (star_greedy_over f k ts)"
    then have "\<exists>u \<in> set ts. extends u t" using "3.IH"(2) "3.prems"(1) by blast
    then show ?thesis by auto
  qed
qed

lemma star_lazy_extends:
  "(\<And>s t. t \<in> set (f s) \<Longrightarrow> extends s t) \<Longrightarrow> t \<in> set (star_lazy f s) \<Longrightarrow> extends s t"
  "(\<And>s t. t \<in> set (f s) \<Longrightarrow> extends s t) \<Longrightarrow> t \<in> set (star_lazy_over f k ts) \<Longrightarrow>
     \<exists>u \<in> set ts. extends u t"
proof (induction f s and f k ts arbitrary: t and t rule: star_lazy_star_lazy_over.induct)
  case (1 f s)
  from "1.prems"(2) have "t = s \<or> t \<in> set (star_lazy_over f (remaining s) (f s))" by auto
  then show ?case
  proof
    assume "t = s"
    then show ?thesis by (simp add: extends_refl)
  next
    assume "t \<in> set (star_lazy_over f (remaining s) (f s))"
    then obtain u where u: "u \<in> set (f s)" "extends u t" using "1.IH" "1.prems"(1) by blast
    have "extends s u" using "1.prems"(1) u(1) by blast
    then show ?thesis using u(2) extends_trans by blast
  qed
next
  case (2 f k)
  then show ?case by simp
next
  case (3 f k u ts)
  from "3.prems"(2) have "(remaining u < k \<and> t \<in> set (star_lazy f u)) \<or>
      t \<in> set (star_lazy_over f k ts)" by (auto split: if_splits)
  then show ?case
  proof
    assume a: "remaining u < k \<and> t \<in> set (star_lazy f u)"
    then have "extends u t" using "3.IH"(1) "3.prems"(1) by blast
    then show ?thesis by auto
  next
    assume "t \<in> set (star_lazy_over f k ts)"
    then have "\<exists>u \<in> set ts. extends u t" using "3.IH"(2) "3.prems"(1) by blast
    then show ?thesis by auto
  qed
qed

lemma capture_extends: "extends s t \<Longrightarrow> extends s (capture g s t)"
  by (cases s; cases t) auto

lemma rmatch_extends: "t \<in> set (rmatch r ml s) \<Longrightarrow> extends s t"
proof (induction r arbitrary: s t)
  case (Lit w)
  then show ?case by (simp add: step_lit_extends)
next
  case (One a)
  then show ?case by (simp add: step_atom_extends)
next
  case (Seq r1 r2)
  from Seq.prems obtain u where u: "u \<in> set (rmatch r1 ml s)" "t \<in> set (rmatch r2 ml u)"
    by auto
  show ?case using Seq.IH(1) [OF u(1)] Seq.IH(2) [OF u(2)] extends_trans by blast
next
  case (Alt r1 r2)
  from Alt.prems have "t \<in> set (rmatch r1 ml s) \<or> t \<in> set (rmatch r2 ml s)" by simp
  then show ?case using Alt.IH by blast
next
  case (Star r)
  then show ?case using star_greedy_extends(1) [of "rmatch r ml" t s] by simp
next
  case (LazyStar r)
  then show ?case using star_lazy_extends(1) [of "rmatch r ml" t s] by simp
next
  case (Plus r)
  from Plus.prems obtain u where u: "u \<in> set (rmatch r ml s)"
      "t \<in> set (star_greedy (rmatch r ml) u)" by auto
  have "extends u t" using star_greedy_extends(1) [of "rmatch r ml" t u] Plus.IH u(2) by blast
  then show ?case using Plus.IH [OF u(1)] extends_trans by blast
next
  case (Opt r)
  from Opt.prems have "t \<in> set (rmatch r ml s) \<or> t = s" by auto
  then show ?case using Opt.IH extends_refl by blast
next
  case (Group g r)
  from Group.prems obtain u where "u \<in> set (rmatch r ml s)" "t = capture g s u" by auto
  then show ?case using Group.IH capture_extends by blast
next
  case Eol
  then have "t = s" by (simp split: if_splits)
  then show ?case by (simp add: extends_refl)
next
  case (Ahead r)
  from Ahead.prems have "t = s" by (simp split: if_splits)
  then show ?case by (simp add: extends_refl)
next
  case (NotBehind a)
  then have "t = s" by (simp split: if_splits)
  then show ?case by (simp add: extends_refl)
qed

text \<open>A pattern of the form literal, group, literal.\<close>

lemma sandwich_states:
  assumes "t \<in> set (rmatch (Seq (Lit a) (Seq (Group g x) (Lit b))) ml (bef, aft, caps))"
  shows "\<exists>w. take (length aft - remaining t) aft = a @ w @ b \<and>
             map_of (caps_of t) g = Some w"
proof -
  from assms obtain s1 s2 where s1: "s1 \<in> set (step_lit a (bef, aft, caps))"
    and s2: "s2 \<in> set (rmatch x ml s1)" and t: "t \<in> set (step_lit b (capture g s1 s2))"
    by auto
  obtain aft1 where s1': "s1 = (rev a @ bef, aft1, caps)" and aft: "aft = a @ aft1"
    using s1 by (auto simp: prefix_def split: if_splits)
  obtain bef2 aft2 caps2 where s2': "s2 = (bef2, aft2, caps2)" by (cases s2)
  have "extends s1 s2" using rmatch_extends [OF s2] .
  then obtain w where w: "aft1 = w @ aft2" using s1' s2' by auto
  have cap: "capture g s1 s2 = (bef2, aft2, (g, w) # caps2)" using s1' s2' w by simp
  obtain aft3 where t': "t = (rev b @ bef2, aft3, (g, w) # caps2)" and aft2: "aft2 = b @ aft3"
    using t cap by (auto simp: prefix_def split: if_splits)
  have "aft = (a @ w @ b) @ aft3" using aft w aft2 by simp
  then have "take (length aft - remaining t) aft = a @ w @ b" using t' by simp
  then show ?thesis using t' by simp
qed

lemma match_at_state:
  assumes "match_at r ml adv bef aft = Some (n, caps)"
  shows "\<exists>t \<in> set (rmatch r ml (bef, aft, [])). n = length aft - remaining t \<and> caps = caps_of t"
proof -
  let ?xs = "filter (\<lambda>t. if adv then remaining t < length aft else True)
               (rmatch r ml (bef, aft, []))"
  from assms obtain t ts where ts: "?xs = t # ts" and n: "n = length aft - remaining t"
    and c: "caps = caps_of t"
    by (auto simp: match_at_def split: list.splits)
  have "t \<in> set ?xs" using ts by simp
  then show ?thesis using n c by auto
qed

lemma sandwich_match:
  assumes "is_match (Seq (Lit a) (Seq (Group (Suc g) x) (Lit b))) ml m"
  shows "fst m = a @ group m (Suc g) @ b"
proof -
  from assms obtain adv bef aft where
    m: "match_at (Seq (Lit a) (Seq (Group (Suc g) x) (Lit b))) ml adv bef aft =
          Some (length (fst m), snd m)"
    and f: "fst m = take (length (fst m)) aft"
    unfolding is_match_def by blast
  from match_at_state [OF m] obtain t where
    t: "t \<in> set (rmatch (Seq (Lit a) (Seq (Group (Suc g) x) (Lit b))) ml (bef, aft, []))"
    and n: "length (fst m) = length aft - remaining t" and c: "snd m = caps_of t" by blast
  from sandwich_states [OF t] obtain w where
    w: "take (length aft - remaining t) aft = a @ w @ b" "map_of (caps_of t) (Suc g) = Some w"
    by blast
  have "group m (Suc g) = w" using w(2) c by (cases m) simp
  then show ?thesis using f n w(1) by simp
qed

section \<open>Properties of the rewrite rules\<close>

lemma border_free_atomic: "border_free ''(?>''"
  by (simp add: border_free_def)

lemma border_free_anchor: "c \<noteq> BSL \<Longrightarrow> border_free [BSL, c]"
  by (simp add: border_free_def)

lemma bsl_neq [simp]: "BSL \<noteq> CHR ''A''" "BSL \<noteq> CHR ''Z''" "CHR ''A'' \<noteq> BSL" "CHR ''Z'' \<noteq> BSL"
  "BSL \<noteq> CHR ''^''" "BSL \<noteq> CHR ''$''" "CHR ''^'' \<noteq> BSL" "CHR ''$'' \<noteq> BSL"
  by (simp_all add: BSL_def)

lemma preserve_id: "preserve_complex_pattern regex = regex"
proof -
  have "re_sub re_preserve_optional False (\<lambda>m. ''(?:'' @ group m 1 @ '')?'') regex = regex"
    unfolding re_preserve_optional_def
    by (rule re_sub_keeps) (use sandwich_match [of "''(?:''" 0 _ "'')?''" False] in simp)
  then show ?thesis by (simp add: preserve_complex_pattern_def re_sub_id)
qed

lemma atomic_fst: "fst (handle_atomic_groups s) = str_replace ''(?>'' ''(?:'' s"
proof -
  have "\<not> str_in ''(?>'' s \<Longrightarrow> str_replace ''(?>'' ''(?:'' s = s"
    by (induction s) auto
  then show ?thesis by (auto simp: handle_atomic_groups_def)
qed

lemma atomic_split:
  "fst (handle_atomic_groups (xs @ ''(?>'' @ ys)) =
   fst (handle_atomic_groups xs) @ ''(?:'' @ fst (handle_atomic_groups ys)"
  unfolding atomic_fst by (rule str_replace_split) (simp_all add: border_free_atomic)

lemma atomic_no_residue: "\<not> str_in ''(?>'' (fst (handle_atomic_groups s))"
  unfolding atomic_fst by (rule str_replace_no_residue [where a = "CHR ''(''" and w = "''?>''"]) simp_all

lemma pair_in_append:
  "str_in [a, b] (x @ y) =
     (str_in [a, b] x \<or> str_in [a, b] y \<or> (x \<noteq> [] \<and> y \<noteq> [] \<and> last x = a \<and> hd y = b))"
proof (induction x)
  case Nil
  then show ?case by simp
next
  case (Cons c x)
  show ?case
  proof (cases x)
    case Nil
    then show ?thesis by (cases y) auto
  next
    case (Cons d x')
    then show ?thesis using Cons.IH by auto
  qed
qed

lemma str_in_suffix: "str_in old (drop n s) \<Longrightarrow> old \<noteq> [] \<Longrightarrow> str_in old s"
proof (induction s arbitrary: n)
  case Nil
  then show ?case by simp
next
  case (Cons c cs)
  then show ?case by (cases n) auto
qed

text \<open>A replacement creates no occurrence of a string that it cannot start or complete.\<close>

lemma str_replace_no_new:
  assumes o: "old \<noteq> []" and new: "new \<noteq> []" and h: "hd new \<notin> set w" and a: "a \<notin> set new"
  shows "\<not> str_in (a # w) s \<Longrightarrow> \<not> str_in (a # w) (str_replace old new s)"
proof (induction s rule: length_induct)
  case (1 s)
  show ?case
  proof (cases s)
    case Nil
    then show ?thesis using o by simp
  next
    case (Cons c cs)
    show ?thesis
    proof (cases "prefix old (c # cs)")
      case True
      let ?r = "drop (length old) (c # cs)"
      let ?R = "str_replace old new ?r"
      have out: "str_replace old new s = new @ ?R" using True Cons o by simp
      have "\<not> str_in (a # w) ?r" using "1.prems" str_in_suffix [of "a # w" "length old" s] Cons
        by auto
      moreover have "length ?r < length s" using Cons o by simp
      ultimately have ih: "\<not> str_in (a # w) ?R" using "1.IH" by blast
      have "\<not> prefix (a # w) (drop j new @ ?R)" if j: "j < length new" for j
      proof -
        have "drop j new \<noteq> []" using j by simp
        then obtain e es where e: "drop j new = e # es" by (cases "drop j new") auto
        have "e \<in> set (drop j new)" using e by simp
        then have "e \<in> set new" by (rule in_set_dropD)
        then have "e \<noteq> a" using a by auto
        then show ?thesis using e by simp
      qed
      then show ?thesis using out ih by (simp add: str_in_append)
    next
      case False
      let ?R = "str_replace old new cs"
      have out: "str_replace old new s = c # ?R" using False Cons o by simp
      have "\<not> str_in (a # w) cs" using "1.prems" Cons by simp
      moreover have "length cs < length s" using Cons by simp
      ultimately have ih: "\<not> str_in (a # w) ?R" using "1.IH" by blast
      have "\<not> prefix (a # w) (c # ?R)"
      proof
        assume p: "prefix (a # w) (c # ?R)"
        then have ca: "c = a" and pw: "prefix w ?R" by auto
        have "prefix w cs" using str_replace_keeps_prefix [OF new h pw] .
        then show False using "1.prems" ca Cons by simp
      qed
      then show ?thesis using out ih by simp
    qed
  qed
qed

text \<open>
  A substitution whose replacements begin and end as the matches do, and hold a pair of
  adjacent characters only if the match does, creates no such pair.
\<close>

lemma pieces_no_new_pair:
  assumes m: "\<And>m. Inr m \<in> set ps \<Longrightarrow> fst m \<noteq> [] \<and> repl m \<noteq> [] \<and> hd (repl m) = hd (fst m) \<and>
      last (repl m) = last (fst m) \<and> (str_in [a, b] (repl m) \<longrightarrow> str_in [a, b] (fst m))"
  shows "\<not> str_in [a, b] (concat (map (case_sum (\<lambda>c. [c]) fst) ps)) \<Longrightarrow>
     \<not> str_in [a, b] (concat (map (case_sum (\<lambda>c. [c]) repl) ps)) \<and>
     (concat (map (case_sum (\<lambda>c. [c]) repl) ps) = [] \<longleftrightarrow>
      concat (map (case_sum (\<lambda>c. [c]) fst) ps) = []) \<and>
     hd (concat (map (case_sum (\<lambda>c. [c]) repl) ps)) =
     hd (concat (map (case_sum (\<lambda>c. [c]) fst) ps))"
  using m
proof (induction ps)
  case Nil
  then show ?case by simp
next
  case (Cons p ps)
  let ?I = "concat (map (case_sum (\<lambda>c. [c]) fst) ps)"
  let ?O = "concat (map (case_sum (\<lambda>c. [c]) repl) ps)"
  let ?i = "case_sum (\<lambda>c. [c]) fst p"
  let ?o = "case_sum (\<lambda>c. [c]) repl p"
  have pre: "\<not> str_in [a, b] (?i @ ?I)" using Cons.prems(1) by simp
  then have nI: "\<not> str_in [a, b] ?I" and ni: "\<not> str_in [a, b] ?i"
    and nb: "\<not> (?i \<noteq> [] \<and> ?I \<noteq> [] \<and> last ?i = a \<and> hd ?I = b)"
    by (simp_all add: pair_in_append)
  have ih: "\<not> str_in [a, b] ?O" "?O = [] \<longleftrightarrow> ?I = []" "hd ?O = hd ?I"
    using Cons.IH [OF nI] Cons.prems(2) by auto
  have p: "?i \<noteq> [] \<and> ?o \<noteq> [] \<and> hd ?o = hd ?i \<and> last ?o = last ?i \<and>
      (str_in [a, b] ?o \<longrightarrow> str_in [a, b] ?i)"
  proof (cases p)
    case (Inl c)
    then show ?thesis by simp
  next
    case (Inr m)
    then show ?thesis using Cons.prems(2) [of m] by simp
  qed
  have "\<not> str_in [a, b] (?o @ ?O)"
    using p ni ih nb by (simp add: pair_in_append)
  moreover have "hd (?o @ ?O) = hd (?i @ ?I)" using p by simp
  moreover have "(?o @ ?O = []) = (?i @ ?I = [])" using p by simp
  ultimately show ?case by simp
qed

lemma re_sub_no_new_pair:
  assumes m: "\<And>m. is_match r ml m \<Longrightarrow> fst m \<noteq> [] \<and> repl m \<noteq> [] \<and> hd (repl m) = hd (fst m) \<and>
      last (repl m) = last (fst m) \<and> (str_in [a, b] (repl m) \<longrightarrow> str_in [a, b] (fst m))"
    and s: "\<not> str_in [a, b] s"
  shows "\<not> str_in [a, b] (re_sub r ml repl s)"
proof -
  let ?ps = "scan_loop r ml False [] s"
  have "\<not> str_in [a, b] (concat (map (case_sum (\<lambda>c. [c]) fst) ?ps))"
    using s by (simp add: scan_loop_partition)
  moreover have "\<And>m. Inr m \<in> set ?ps \<Longrightarrow> fst m \<noteq> [] \<and> repl m \<noteq> [] \<and>
      hd (repl m) = hd (fst m) \<and> last (repl m) = last (fst m) \<and>
      (str_in [a, b] (repl m) \<longrightarrow> str_in [a, b] (fst m))"
    using m scan_loop_matches by blast
  ultimately have "\<not> str_in [a, b] (concat (map (case_sum (\<lambda>c. [c]) repl) ?ps))"
    using pieces_no_new_pair [of ?ps repl a b] by blast
  then show ?thesis by (simp add: re_sub_def re_scan_def)
qed

lemma bracket_states:
  assumes "t \<in> set (rmatch (Seq (Lit a) (Seq x (Lit b))) ml (bef, aft, caps))"
  shows "\<exists>w. take (length aft - remaining t) aft = a @ w @ b"
proof -
  from assms obtain s1 s2 where s1: "s1 \<in> set (step_lit a (bef, aft, caps))"
    and s2: "s2 \<in> set (rmatch x ml s1)" and t: "t \<in> set (step_lit b s2)"
    by auto
  obtain aft1 where s1': "s1 = (rev a @ bef, aft1, caps)" and aft: "aft = a @ aft1"
    using s1 by (auto simp: prefix_def split: if_splits)
  obtain bef2 aft2 caps2 where s2': "s2 = (bef2, aft2, caps2)" by (cases s2)
  have "extends s1 s2" using rmatch_extends [OF s2] .
  then obtain w where w: "aft1 = w @ aft2" using s1' s2' by auto
  obtain aft3 where t': "t = (rev b @ bef2, aft3, caps2)" and aft2: "aft2 = b @ aft3"
    using t s2' by (auto simp: prefix_def split: if_splits)
  have "aft = (a @ w @ b) @ aft3" using aft w aft2 by simp
  then have "take (length aft - remaining t) aft = a @ w @ b" using t' by simp
  then show ?thesis by blast
qed

lemma bracket_match:
  assumes "is_match (Seq (Lit a) (Seq x (Lit b))) ml m"
  shows "\<exists>w. fst m = a @ w @ b"
proof -
  from assms obtain adv bef aft where
    m: "match_at (Seq (Lit a) (Seq x (Lit b))) ml adv bef aft = Some (length (fst m), snd m)"
    and f: "fst m = take (length (fst m)) aft"
    unfolding is_match_def by blast
  from match_at_state [OF m] obtain t where
    t: "t \<in> set (rmatch (Seq (Lit a) (Seq x (Lit b))) ml (bef, aft, []))"
    and n: "length (fst m) = length aft - remaining t" by blast
  from bracket_states [OF t] obtain w where
    "take (length aft - remaining t) aft = a @ w @ b" by blast
  then show ?thesis using f n by auto
qed

lemma named_group_match:
  assumes "is_match re_named_group False m"
  shows "fst m = ''(?P<'' @ group m 1 @ ''>''"
  using assms sandwich_match [of "''(?P<''" 0 "Plus (One Word)" "''>''" False m]
  by (simp add: re_named_group_def)

lemma optional_group_match:
  assumes "is_match re_optional_group False m"
  shows "\<exists>w. fst m = ''(?:'' @ w @ '')?''"
  using assms bracket_match [of "''(?:''" _ "'')?''" False m]
  by (simp add: re_optional_group_def)

lemma cc_no_pair:
  assumes c: "c = CHR ''A'' \<or> c = CHR ''Z''"
  shows "\<not> str_in [BSL, c] (conservative_conversion s)"
proof -
  let ?s1 = "str_replace [BSL, CHR ''A''] ''^'' s"
  let ?s2 = "str_replace [BSL, CHR ''Z''] ''$'' ?s1"
  let ?s3 = "re_sub re_named_group False (\<lambda>m. ''(?<'' @ group m 1 @ ''>'') ?s2"
  let ?s4 = "re_sub re_optional_group False (\<lambda>m. ''(?:'' @ group m 0 @ '')?'') ?s3"
  have s2: "\<not> str_in [BSL, c] ?s2"
  proof (cases "c = CHR ''A''")
    case True
    have "\<not> str_in [BSL, CHR ''A''] ?s1"
      by (rule str_replace_no_residue [where a = BSL and w = "''A''"]) simp_all
    then have "\<not> str_in [BSL, CHR ''A''] ?s2"
      by (rule str_replace_no_new [rotated -1]) simp_all
    then show ?thesis using True by simp
  next
    case False
    then have z: "c = CHR ''Z''" using c by simp
    have "\<not> str_in [BSL, CHR ''Z''] ?s2"
      by (rule str_replace_no_residue [where a = BSL and w = "''Z''"]) simp_all
    then show ?thesis using z by simp
  qed
  have s3: "\<not> str_in [BSL, c] ?s3"
  proof (rule re_sub_no_new_pair [OF _ s2])
    fix m
    assume "is_match re_named_group False m"
    then have f: "fst m = ''(?P<'' @ group m 1 @ ''>''" by (rule named_group_match)
    show "fst m \<noteq> [] \<and> ''(?<'' @ group m 1 @ ''>'' \<noteq> [] \<and>
      hd (''(?<'' @ group m 1 @ ''>'') = hd (fst m) \<and>
      last (''(?<'' @ group m 1 @ ''>'') = last (fst m) \<and>
      (str_in [BSL, c] (''(?<'' @ group m 1 @ ''>'') \<longrightarrow> str_in [BSL, c] (fst m))"
      by (subst (1 2 3 4) f) (simp add: BSL_def)
  qed
  have s4: "\<not> str_in [BSL, c] ?s4"
  proof (rule re_sub_no_new_pair [OF _ s3])
    fix m
    assume "is_match re_optional_group False m"
    then obtain w where f: "fst m = ''(?:'' @ w @ '')?''" using optional_group_match by blast
    have g: "group m 0 = ''(?:'' @ w @ '')?''" using f by (simp add: group0)
    have p: "str_in [BSL, c] (w @ '')?)?'') = str_in [BSL, c] (w @ '')?'')"
      using c by (auto simp: pair_in_append BSL_def)
    show "fst m \<noteq> [] \<and> ''(?:'' @ group m 0 @ '')?'' \<noteq> [] \<and>
      hd (''(?:'' @ group m 0 @ '')?'') = hd (fst m) \<and>
      last (''(?:'' @ group m 0 @ '')?'') = last (fst m) \<and>
      (str_in [BSL, c] (''(?:'' @ group m 0 @ '')?'') \<longrightarrow> str_in [BSL, c] (fst m))"
      unfolding g f using p by (simp add: BSL_def)
  qed
  show ?thesis using s4 by (simp add: conservative_conversion_def)
qed

lemma count_occ_end_anchor:
  "count_occ [BSL, CHR ''Z''] (str_replace [BSL, CHR ''A''] ''^'' s) = count_occ [BSL, CHR ''Z''] s"
proof (induction s rule: length_induct)
  case (1 s)
  show ?case
  proof (cases s)
    case Nil
    then show ?thesis by simp
  next
    case (Cons c cs)
    show ?thesis
    proof (cases "prefix [BSL, CHR ''A''] (c # cs)")
      case True
      then obtain r where r: "cs = CHR ''A'' # r" and c: "c = BSL" by (cases cs) auto
      have "length r < length s" using r Cons by simp
      then have "count_occ [BSL, CHR ''Z''] (str_replace [BSL, CHR ''A''] ''^'' r) =
          count_occ [BSL, CHR ''Z''] r" using 1 by blast
      then show ?thesis using r c Cons by (simp add: BSL_def)
    next
      case False
      let ?R = "str_replace [BSL, CHR ''A''] ''^'' cs"
      have out: "str_replace [BSL, CHR ''A''] ''^'' s = c # ?R" using False Cons by simp
      have "length cs < length s" using Cons by simp
      then have ih: "count_occ [BSL, CHR ''Z''] ?R = count_occ [BSL, CHR ''Z''] cs" using 1 by blast
      have "prefix ''Z'' ?R = prefix ''Z'' cs"
        using str_replace_keeps_prefix [of "''^''" "''Z''" "[BSL, CHR ''A'']" cs]
          str_replace_gives_prefix [of "[BSL, CHR ''A'']" "''Z''" cs "''^''"]
        by auto
      then have "prefix [BSL, CHR ''Z''] (c # ?R) = prefix [BSL, CHR ''Z''] (c # cs)" by simp
      then show ?thesis using out ih Cons by simp
    qed
  qed
qed

lemma cc_count_start:
  "count_list (conservative_conversion s) (CHR ''^'') =
   count_list s (CHR ''^'') + count_occ [BSL, CHR ''A''] s"
proof -
  let ?s1 = "str_replace [BSL, CHR ''A''] ''^'' s"
  let ?s2 = "str_replace [BSL, CHR ''Z''] ''$'' ?s1"
  let ?s3 = "re_sub re_named_group False (\<lambda>m. ''(?<'' @ group m 1 @ ''>'') ?s2"
  let ?s4 = "re_sub re_optional_group False (\<lambda>m. ''(?:'' @ group m 0 @ '')?'') ?s3"
  have 1: "count_list ?s1 (CHR ''^'') = count_list s (CHR ''^'') + count_occ [BSL, CHR ''A''] s"
    using str_replace_count [of "[BSL, CHR ''A'']" "''^''" s "CHR ''^''"]
    by (simp add: border_free_anchor)
  have 2: "count_list ?s2 (CHR ''^'') = count_list ?s1 (CHR ''^'')"
    using str_replace_count [of "[BSL, CHR ''Z'']" "''$''" ?s1 "CHR ''^''"]
    by (simp add: border_free_anchor)
  have 3: "count_list ?s3 (CHR ''^'') = count_list ?s2 (CHR ''^'')"
  proof (rule re_sub_count)
    fix m
    assume "is_match re_named_group False m"
    then have f: "fst m = ''(?P<'' @ group m 1 @ ''>''" by (rule named_group_match)
    show "count_list (''(?<'' @ group m 1 @ ''>'') (CHR ''^'') = count_list (fst m) (CHR ''^'')"
      by (subst f) simp
  qed
  have 4: "count_list ?s4 (CHR ''^'') = count_list ?s3 (CHR ''^'')"
    by (rule re_sub_count) (simp add: group0)
  show ?thesis using 1 2 3 4 by (simp add: conservative_conversion_def)
qed

lemma cc_count_end:
  "count_list (conservative_conversion s) (CHR ''$'') =
   count_list s (CHR ''$'') + count_occ [BSL, CHR ''Z''] s"
proof -
  let ?s1 = "str_replace [BSL, CHR ''A''] ''^'' s"
  let ?s2 = "str_replace [BSL, CHR ''Z''] ''$'' ?s1"
  let ?s3 = "re_sub re_named_group False (\<lambda>m. ''(?<'' @ group m 1 @ ''>'') ?s2"
  let ?s4 = "re_sub re_optional_group False (\<lambda>m. ''(?:'' @ group m 0 @ '')?'') ?s3"
  have 1: "count_list ?s1 (CHR ''$'') = count_list s (CHR ''$'')"
    using str_replace_count [of "[BSL, CHR ''A'']" "''^''" s "CHR ''$''"]
    by (simp add: border_free_anchor)
  have 2: "count_list ?s2 (CHR ''$'') = count_list ?s1 (CHR ''$'') + count_occ [BSL, CHR ''Z''] s"
    using str_replace_count [of "[BSL, CHR ''Z'']" "''$''" ?s1 "CHR ''$''"]
    by (simp add: border_free_anchor count_occ_end_anchor)
  have 3: "count_list ?s3 (CHR ''$'') = count_list ?s2 (CHR ''$'')"
  proof (rule re_sub_count)
    fix m
    assume "is_match re_named_group False m"
    then have f: "fst m = ''(?P<'' @ group m 1 @ ''>''" by (rule named_group_match)
    show "count_list (''(?<'' @ group m 1 @ ''>'') (CHR ''$'') = count_list (fst m) (CHR ''$'')"
      by (subst f) simp
  qed
  have 4: "count_list ?s4 (CHR ''$'') = count_list ?s3 (CHR ''$'')"
    by (rule re_sub_count) (simp add: group0)
  show ?thesis using 1 2 3 4 by (simp add: conservative_conversion_def)
qed

section \<open>Patterns without a match\<close>

lemma match_at_none: "rmatch r ml (bef, aft, []) = [] \<Longrightarrow> match_at r ml adv bef aft = None"
  by (simp add: match_at_def)

lemma scan_loop_no_match:
  assumes step: "\<And>bef c cs. I bef (c # cs) \<Longrightarrow> I (c # bef) cs"
    and none: "\<And>adv bef aft. I bef aft \<Longrightarrow> match_at r ml adv bef aft = None"
  shows "I bef aft \<Longrightarrow> scan_loop r ml adv bef aft = map Inl aft"
proof (induction aft arbitrary: bef adv)
  case Nil
  then show ?case using none [of bef "[]" adv] by (subst scan_loop.simps) simp
next
  case (Cons c cs)
  have "scan_loop r ml False (c # bef) cs = map Inl cs"
    using Cons.IH [OF step [OF Cons.prems]] .
  then show ?case using none [OF Cons.prems, of adv] by (subst scan_loop.simps) simp
qed

lemma re_sub_no_match:
  assumes step: "\<And>bef c cs. I bef (c # cs) \<Longrightarrow> I (c # bef) cs"
    and none: "\<And>adv bef aft. I bef aft \<Longrightarrow> match_at r ml adv bef aft = None"
    and init: "I [] s"
  shows "re_sub r ml repl s = s"
proof -
  have "scan_loop r ml False [] s = map Inl s"
    using scan_loop_no_match [of I r ml "[]" s False] step none init by blast
  then show ?thesis by (simp add: re_sub_def re_scan_def comp_def)
qed

lemma comment_none: "hash_escaped bef aft \<Longrightarrow> match_at re_comment ml adv bef aft = None"
proof (rule match_at_none)
  assume h: "hash_escaped bef aft"
  show "rmatch re_comment ml (bef, aft, []) = []"
  proof (cases aft)
    case Nil
    then show ?thesis by (simp add: re_comment_def)
  next
    case (Cons c cs)
    then have "c \<noteq> CHR ''#'' \<or> prefix [BSL] bef" using h by simp
    then show ?thesis
    proof
      assume "c \<noteq> CHR ''#''"
      then show ?thesis using Cons by (simp add: re_comment_def)
    next
      assume "prefix [BSL] bef"
      then obtain b where "bef = BSL # b" by (cases bef) auto
      then show ?thesis by (simp add: re_comment_def)
    qed
  qed
qed

lemma whitespace_none:
  "list_all (\<lambda>c. \<not> is_space c) aft \<Longrightarrow> match_at re_whitespace ml adv bef aft = None"
  by (rule match_at_none) (cases aft; simp add: re_whitespace_def)

lemma verbose_flag_none:
  "\<not> str_in ''(?x)'' aft \<Longrightarrow> match_at re_verbose_flag ml adv bef aft = None"
  by (rule match_at_none) (cases aft; simp add: re_verbose_flag_def)

lemma strip_space_none: "list_all (\<lambda>c. \<not> is_space c) s \<Longrightarrow> py_strip_space s = s"
proof -
  assume a: "list_all (\<lambda>c. \<not> is_space c) s"
  have 1: "dropWhile is_space s = s" using a by (cases s) auto
  have "list_all (\<lambda>c. \<not> is_space c) (rev s)" using a by (simp add: list_all_iff)
  then have 2: "dropWhile is_space (rev s) = rev s" by (cases "rev s") auto
  show ?thesis using 1 2 by (simp add: py_strip_space_def)
qed

lemma spaceless_unchanged: "spaceless s \<Longrightarrow> handle_verbose_mode s = s"
proof -
  assume d: "spaceless s"
  have 1: "re_sub re_comment True (\<lambda>m. []) s = s"
    by (rule re_sub_no_match [where I = hash_escaped]) (use d in \<open>auto simp: spaceless_def comment_none\<close>)
  have 2: "re_sub re_whitespace False (\<lambda>m. []) s = s"
    by (rule re_sub_no_match [where I = "\<lambda>bef aft. list_all (\<lambda>c. \<not> is_space c) aft"])
      (use d in \<open>auto simp: spaceless_def whitespace_none\<close>)
  have 3: "re_sub re_verbose_flag False (\<lambda>m. []) s = s"
    by (rule re_sub_no_match [where I = "\<lambda>bef aft. \<not> str_in ''(?x)'' aft"])
      (use d in \<open>auto simp: spaceless_def verbose_flag_none\<close>)
  show ?thesis using 1 2 3 d by (simp add: handle_verbose_mode_def spaceless_def strip_space_none)
qed

section \<open>The matches of the named-reference pattern\<close>

lemma star_atom_nil: "star_greedy (step_atom a) (bef, [], caps) = [(bef, [], caps)]"
  by simp

lemma star_atom_cons:
  "star_greedy (step_atom a) (bef, c # cs, caps) =
     (if atom_match a c then star_greedy (step_atom a) (c # bef, cs, caps) else []) @
     [(bef, c # cs, caps)]"
  by simp

lemma star_atom_then_lit:
  assumes "\<not> atom_match a d"
  shows "concat (map (\<lambda>t. step_lit [d] (capture g s0 t)) (star_greedy (step_atom a) (bef, aft, caps))) =
     step_lit [d] (capture g s0
       (rev (takeWhile (atom_match a) aft) @ bef, dropWhile (atom_match a) aft, caps))"
proof (induction aft arbitrary: bef)
  case Nil
  show ?case by (subst star_atom_nil) simp
next
  case (Cons c cs)
  show ?case
  proof (cases "atom_match a c")
    case True
    then have "d \<noteq> c" using assms by auto
    then have "step_lit [d] (capture g s0 (bef, c # cs, caps)) = []"
      by (cases s0) simp
    then show ?thesis using True Cons.IH [of "c # bef"] by (subst star_atom_cons) simp
  next
    case False
    then show ?thesis by (subst star_atom_cons) simp
  qed
qed

lemma not_word_paren [simp]: "\<not> is_word (CHR '')'')" "\<not> is_word (CHR ''('')"
  "\<not> is_word (CHR ''?'')" "\<not> is_word (CHR ''='')" "is_word (CHR ''P'')"
  by (simp_all add: is_word_def)

lemma rmatch_One_fun: "rmatch (One a) ml = step_atom a"
  by (rule ext) simp

lemma atom_match_Word: "atom_match Word = is_word"
  by (rule ext) simp

lemma take_to_dropWhile:
  "take (length xs - length (dropWhile P xs)) xs = takeWhile P xs"
proof -
  have "length xs = length (takeWhile P xs) + length (dropWhile P xs)"
    by (metis length_append takeWhile_dropWhile_id)
  then have "length xs - length (dropWhile P xs) = length (takeWhile P xs)" by simp
  then show ?thesis by (metis append_eq_conv_conj takeWhile_dropWhile_id)
qed

lemma named_ref_states:
  "rmatch re_named_ref ml (bef, aft, []) =
     (if named_ref_at aft
      then [(CHR '')'' # rev (takeWhile is_word (drop 4 aft)) @ rev ''(?P='' @ bef,
             tl (dropWhile is_word (drop 4 aft)),
             [(1, takeWhile is_word (drop 4 aft))])]
      else [])"
proof (cases "prefix ''(?P='' aft")
  case False
  then show ?thesis by (simp add: re_named_ref_def named_ref_at_def)
next
  case True
  then obtain a1 where aft: "aft = ''(?P='' @ a1" by (auto simp: prefix_def)
  have d4: "drop 4 aft = a1" using aft by simp
  let ?b1 = "rev ''(?P='' @ bef"
  let ?s1 = "(?b1, a1, [])"
  have r: "rmatch re_named_ref ml (bef, aft, []) =
     concat (map (\<lambda>t. step_lit '')'' (capture 1 ?s1 t)) (rmatch (Plus (One Word)) ml ?s1))"
    using aft by (simp add: re_named_ref_def comp_def del: rmatch.simps(7))
  show ?thesis
  proof (cases a1)
    case Nil
    then show ?thesis using r True d4 by (simp add: named_ref_at_def)
  next
    case (Cons c cs)
    show ?thesis
    proof (cases "is_word c")
      case False
      then show ?thesis using r Cons True d4 by (simp add: named_ref_at_def)
    next
      case w: True
      have p: "rmatch (Plus (One Word)) ml ?s1 = star_greedy (step_atom Word) (c # ?b1, cs, [])"
        using Cons w by (simp add: rmatch_One_fun del: star_greedy.simps)
      have tw: "takeWhile is_word a1 = c # takeWhile is_word cs"
        and dw: "dropWhile is_word a1 = dropWhile is_word cs" using Cons w by simp_all
      have cap: "capture 1 ?s1 (rev (takeWhile is_word cs) @ c # ?b1, dropWhile is_word cs, []) =
          (rev (takeWhile is_word a1) @ ?b1, dropWhile is_word a1, [(1, takeWhile is_word a1)])"
        using take_to_dropWhile [of a1 is_word] tw dw by simp
      have nw: "\<not> atom_match Word (CHR '')'')" by simp
      have st: "concat (map (\<lambda>t. step_lit '')'' (capture 1 ?s1 t))
            (star_greedy (step_atom Word) (c # ?b1, cs, []))) =
         step_lit '')'' (capture 1 ?s1
           (rev (takeWhile is_word cs) @ c # ?b1, dropWhile is_word cs, []))"
        using star_atom_then_lit [OF nw, where g = 1 and ?s0.0 = ?s1 and bef = "c # ?b1"
            and aft = cs and caps = "[]"]
        unfolding atom_match_Word .
      have "rmatch re_named_ref ml (bef, aft, []) =
         step_lit '')'' (capture 1 ?s1
           (rev (takeWhile is_word cs) @ c # ?b1, dropWhile is_word cs, []))"
        unfolding r p by (rule st)
      also have "\<dots> = step_lit '')''
          (rev (takeWhile is_word a1) @ ?b1, dropWhile is_word a1, [(1, takeWhile is_word a1)])"
        by (simp only: cap)
      also have "\<dots> = (if prefix '')'' (dropWhile is_word a1)
          then [(CHR '')'' # rev (takeWhile is_word a1) @ ?b1,
                 tl (dropWhile is_word a1), [(1, takeWhile is_word a1)])]
          else [])"
        by (simp add: drop_Suc)
      finally show ?thesis using True d4 tw by (simp add: named_ref_at_def)
    qed
  qed
qed

lemma named_ref_match_at:
  "match_at re_named_ref ml adv bef aft =
     (if named_ref_at aft
      then Some (5 + length (takeWhile is_word (drop 4 aft)), [(1, takeWhile is_word (drop 4 aft))])
      else None)"
proof (cases "named_ref_at aft")
  case False
  then show ?thesis by (simp add: match_at_def named_ref_states)
next
  case True
  then obtain a1 where aft: "aft = ''(?P='' @ a1" by (auto simp: named_ref_at_def prefix_def)
  have d4: "drop 4 aft = a1" using aft by simp
  from True obtain r where dw: "dropWhile is_word a1 = CHR '')'' # r"
    using d4 by (auto simp: named_ref_at_def prefix_def)
  have a1: "a1 = takeWhile is_word a1 @ CHR '')'' # r"
    using dw by (metis takeWhile_dropWhile_id)
  have len: "length aft = 5 + length (takeWhile is_word a1) + length r"
    by (subst aft, subst a1) simp
  show ?thesis using True d4 dw len by (simp add: match_at_def named_ref_states)
qed

lemma count_named_refs_skip:
  "CHR ''('' \<notin> set xs \<Longrightarrow> count_named_refs (xs @ ys) = count_named_refs ys"
proof (induction xs)
  case Nil
  then show ?case by simp
next
  case (Cons x xs)
  then have "\<not> named_ref_at (x # xs @ ys)" by (auto simp: named_ref_at_def)
  then show ?case using Cons by simp
qed

lemma named_ref_consumed:
  assumes "named_ref_at aft"
  shows "count_named_refs aft =
     Suc (count_named_refs (drop (5 + length (takeWhile is_word (drop 4 aft))) aft))"
proof -
  from assms obtain a1 where aft: "aft = ''(?P='' @ a1" by (auto simp: named_ref_at_def prefix_def)
  have d4: "drop 4 aft = a1" using aft by simp
  let ?w = "takeWhile is_word a1"
  from assms obtain r where dw: "dropWhile is_word a1 = CHR '')'' # r"
    using d4 by (auto simp: named_ref_at_def prefix_def)
  have a1: "a1 = ?w @ CHR '')'' # r" using dw by (metis takeWhile_dropWhile_id)
  have whole: "aft = CHR ''('' # (''?P='' @ ?w @ '')'') @ r" by (subst aft, subst a1) simp
  have "CHR ''('' \<notin> set ?w"
  proof
    assume "CHR ''('' \<in> set ?w"
    then have "is_word (CHR ''('')" by (rule set_takeWhileD [THEN conjunct2])
    then show False by simp
  qed
  then have np: "CHR ''('' \<notin> set (''?P='' @ ?w @ '')'')" by simp
  have na: "named_ref_at (CHR ''('' # (''?P='' @ ?w @ '')'') @ r)" using assms whole by simp
  have "count_named_refs (CHR ''('' # (''?P='' @ ?w @ '')'') @ r) =
      Suc (count_named_refs ((''?P='' @ ?w @ '')'') @ r))"
    by (simp only: count_named_refs.simps(2) na if_True)
  then have "count_named_refs aft = Suc (count_named_refs ((''?P='' @ ?w @ '')'') @ r))"
    using whole by simp
  also have "\<dots> = Suc (count_named_refs r)" using count_named_refs_skip [OF np] by simp
  finally have c: "count_named_refs aft = Suc (count_named_refs r)" .
  have whole': "(''(?P='' @ ?w @ '')'') @ r = aft" using whole by simp
  have l: "length (''(?P='' @ ?w @ '')'') = 5 + length ?w" by simp
  have "r = drop (length (''(?P='' @ ?w @ '')'')) aft"
    using whole' by (simp only: append_eq_conv_conj)
  then have "r = drop (5 + length ?w) aft" by (simp only: l)
  then show ?thesis using c d4 by simp
qed

lemma named_ref_scan_count:
  "length [m. Inr m \<leftarrow> scan_loop re_named_ref ml adv bef aft] = count_named_refs aft"
proof (induction re_named_ref ml adv bef aft rule: scan_loop.induct)
  case (1 ml adv bef aft)
  show ?case
  proof (cases "named_ref_at aft")
    case True
    let ?n = "5 + length (takeWhile is_word (drop 4 aft))"
    let ?caps = "[(1::nat, takeWhile is_word (drop 4 aft))]"
    have m: "match_at re_named_ref ml adv bef aft = Some (?n, ?caps)"
      using True by (simp add: named_ref_match_at)
    have ih: "length [m. Inr m \<leftarrow> scan_loop re_named_ref ml (?n = 0) (rev (take ?n aft) @ bef)
        (drop ?n aft)] = count_named_refs (drop ?n aft)"
      using "1.hyps"(2) [OF m refl] .
    have "scan_loop re_named_ref ml adv bef aft =
        Inr (take ?n aft, ?caps) #
        scan_loop re_named_ref ml (?n = 0) (rev (take ?n aft) @ bef) (drop ?n aft)"
      using m by (subst scan_loop.simps) simp
    then show ?thesis using ih named_ref_consumed [OF True] by simp
  next
    case False
    then have m: "match_at re_named_ref ml adv bef aft = None" by (simp add: named_ref_match_at)
    show ?thesis
    proof (cases aft)
      case Nil
      then show ?thesis using m by (subst scan_loop.simps) simp
    next
      case (Cons c cs)
      have "scan_loop re_named_ref ml adv bef aft =
          Inl c # scan_loop re_named_ref ml False (c # bef) cs"
        using m Cons by (subst scan_loop.simps) simp
      then show ?thesis using "1.hyps"(1) [OF m Cons] False Cons by simp
    qed
  qed
qed

lemma sub_fold_append:
  assumes "\<And>st m. repl st m = (st @ [w m], t m)"
  shows "sub_fold repl st ps =
     (st @ map w [m. Inr m \<leftarrow> ps], concat (map (case_sum (\<lambda>c. [c]) t) ps))"
proof (induction ps arbitrary: st)
  case Nil
  then show ?case by simp
next
  case (Cons p ps)
  show ?case
  proof (cases p)
    case (Inl c)
    then show ?thesis using Cons [of st] by simp
  next
    case (Inr m)
    then show ?thesis using Cons [of "st @ [w m]"] assms [of st m] by simp
  qed
qed

lemma sub_fold_named_ref:
  "sub_fold replace_named_ref st ps =
     (st @ map (\<lambda>m. named_ref_warning (group m 1)) [m. Inr m \<leftarrow> ps],
      concat (map (case_sum (\<lambda>c. [c]) (\<lambda>m. [BSL] @ ''k<'' @ group m 1 @ ''>'')) ps))"
  by (rule sub_fold_append) (simp add: replace_named_ref_def)

lemma named_refs_result:
  "handle_named_group_references s =
     (re_sub re_named_ref False (\<lambda>m. [BSL] @ ''k<'' @ group m 1 @ ''>'') s,
      map (\<lambda>m. named_ref_warning (group m 1)) (re_matches re_named_ref False s))"
  by (simp add: handle_named_group_references_def re_sub_effect_def sub_fold_named_ref
      re_sub_def re_matches_def)

lemma named_refs_count:
  "length (snd (handle_named_group_references s)) = count_named_refs s"
  by (simp add: named_refs_result re_matches_def re_scan_def named_ref_scan_count)

lemma atomic_snd:
  "snd (handle_atomic_groups s) = (if str_in ''(?>'' s then [atomic_warning] else [])"
  by (simp add: handle_atomic_groups_def)

section \<open>Properties of the flag codec\<close>

lemma parse_flags_bits:
  "parse_flags s =
     (if CHR ''i'' \<in> set s then 2 else 0) + (if CHR ''m'' \<in> set s then 8 else 0) +
     (if CHR ''s'' \<in> set s then 16 else 0) + (if CHR ''x'' \<in> set s then 64 else 0) +
     (if CHR ''u'' \<in> set s then 32 else 0)"
  by (simp add: parse_flags_def IGNORECASE_def MULTILINE_def DOTALL_def UNICODE_def VERBOSE_def)

text \<open>
  C2. For every flag-letter string \<open>s\<close>, \<open>handle_flags (parse_flags s)\<close> is the table
  \<open>imsu\<close> filtered to the letters that occur in \<open>s\<close> (so exactly those letters, in table
  order, whatever else \<open>s\<close> holds), and the verbose letter \<open>x\<close> is never in it.
\<close>

theorem flag_letters_roundtrip:
  "handle_flags (parse_flags s) = filter (\<lambda>c. c \<in> set s) ''imsu'' \<and>
   CHR ''x'' \<notin> set (handle_flags (parse_flags s))"
  by (simp add: parse_flags_bits handle_flags_def IGNORECASE_def MULTILINE_def DOTALL_def
      UNICODE_def)

section \<open>The driver, stage by stage\<close>

lemma flags_clear: "handle_flags (f AND NOT VERBOSE) = handle_flags f"
proof -
  have "(f AND NOT 64) AND 2 = f AND 2" "(f AND NOT 64) AND 8 = f AND 8"
    "(f AND NOT 64) AND 16 = f AND 16" "(f AND NOT 64) AND 32 = f AND 32"
    by (simp_all add: and.assoc)
  then show ?thesis
    by (simp add: handle_flags_def VERBOSE_def IGNORECASE_def MULTILINE_def DOTALL_def UNICODE_def)
qed

lemma driver_regex: "fst (py_to_js_regex p f v) =
    Some (''/'' @ balance_parentheses (rewritten (stripped p f)) @ ''/'' @ handle_flags f)"
  unfolding py_to_js_regex_def try_body_def rewritten_def stripped_def after_atomic_def
    after_groups_def
  by (simp add: Let_def flags_clear)

lemma driver_warnings: "fst (snd (py_to_js_regex p f v)) = conv_warnings (stripped p f)"
  unfolding py_to_js_regex_def try_body_def rewritten_def stripped_def after_atomic_def
    after_groups_def conv_warnings_def
  by (simp add: Let_def)

lemma driver_steps: "snd (snd (py_to_js_regex p f False)) = []"
  unfolding py_to_js_regex_def try_body_def
  by (simp add: Let_def)

lemma driver_same:
  assumes "py_strip [SQ, DQ] (py_lstrip ''r'' p) = py_strip [SQ, DQ] (py_lstrip ''r'' q)"
  shows "py_to_js_regex p f False = py_to_js_regex q f False"
proof -
  have "stripped p f = stripped q f" using assms by (simp add: stripped_def)
  then show ?thesis
    using driver_regex [of p f False] driver_regex [of q f False]
      driver_warnings [of p f False] driver_warnings [of q f False]
      driver_steps [of p f] driver_steps [of q f]
    by (simp add: prod_eq_iff)
qed

section \<open>Diagnostics and stripping: auxiliary facts\<close>

lemma atomic_warning_distinct:
  "named_ref_warning g \<noteq> atomic_warning" "unicode_warning \<noteq> atomic_warning"
  "lookbehind_warning \<noteq> atomic_warning" "any_char_warning \<noteq> atomic_warning"
  "conditional_warning \<noteq> atomic_warning"
  by (simp_all add: named_ref_warning_def atomic_warning_def unicode_warning_def
      lookbehind_warning_def any_char_warning_def conditional_warning_def SQ_def)

lemma count_named_ref_warnings:
  "count_list (map (\<lambda>m. named_ref_warning (g m)) ms) atomic_warning = 0"
  by (induction ms) (simp_all add: atomic_warning_distinct)

lemma lstrip_marker: "py_lstrip ''r'' (replicate n (CHR ''r'') @ s) = py_lstrip ''r'' s"
  by (induction n) (simp_all add: py_lstrip_def)

lemma last_dropWhile_keep:
  "dropWhile P xs \<noteq> [] \<Longrightarrow> last (dropWhile P xs) = last xs"
  by (metis last_appendR takeWhile_dropWhile_id)

lemma strip_ends:
  assumes "c \<in> set chars"
  shows "\<not> prefix [c] (py_strip chars t)" and "\<not> suffix [c] (py_strip chars t)"
proof -
  let ?P = "\<lambda>c. c \<in> set chars"
  let ?y = "dropWhile ?P t"
  let ?u = "dropWhile ?P (rev ?y)"
  have r: "py_strip chars t = rev ?u"
    unfolding py_strip_def py_rstrip_def py_lstrip_def ..
  show "\<not> suffix [c] (py_strip chars t)"
  proof
    assume "suffix [c] (py_strip chars t)"
    then obtain zs where "rev ?u = zs @ [c]" unfolding r suffix_def by blast
    then have "?u = c # rev zs" by (simp only: rev_swap rev_append rev.simps append.simps)
    then have u: "?u \<noteq> []" and h: "hd ?u = c" by (simp_all only: list.sel list.distinct not_False_eq_True)
    have "\<not> ?P (hd ?u)" using u by (rule hd_dropWhile)
    then show False using h assms by blast
  qed
  show "\<not> prefix [c] (py_strip chars t)"
  proof
    assume "prefix [c] (py_strip chars t)"
    then obtain zs where z: "rev ?u = [c] @ zs" unfolding r prefix_def by blast
    then have uz: "?u = rev zs @ [c]" by (simp only: rev_swap rev_append rev.simps append.simps)
    then have u: "?u \<noteq> []" by (simp only: append_is_Nil_conv list.distinct simp_thms)
    have l: "last ?u = c" by (subst uz) (rule last_snoc)
    have "last ?u = last (rev ?y)" using u by (rule last_dropWhile_keep)
    moreover have y: "?y \<noteq> []"
    proof
      assume "?y = []"
      then have "?u = []" by (simp only: rev.simps dropWhile.simps)
      then show False using u by (simp only:)
    qed
    ultimately have "last ?u = hd ?y" by (simp only: last_rev)
    moreover have "\<not> ?P (hd ?y)" using y by (rule hd_dropWhile)
    ultimately show False using l assms by metis
  qed
qed

lemma dropWhile_no_prefix: "P c \<Longrightarrow> \<not> prefix [c] (dropWhile P s)"
  by (induction s) auto

section \<open>Occurrences through the rewrite rules\<close>

text \<open>
  A rewriting that replaces pieces of a text keeps the number of occurrences of a
  construct when every piece and its replacement agree for the construct in front of
  texts that agree.
\<close>

lemma count_named_refs_at: "count_named_refs s = count_at named_ref_at s"
  by (induction s) simp_all

lemma count_occ_at: "count_occ sub s = count_at (prefix sub) s"
  by (induction s) simp_all

lemma agree_refl: "agree A v v"
  by (simp add: agree_def)

lemma agree_count: "agree A v v' \<Longrightarrow> count_at A v = count_at A v'"
  by (simp add: agree_def)

lemma agree_trans: "agree A u v \<Longrightarrow> agree A v w \<Longrightarrow> agree A u w"
  by (simp add: agree_def)

lemma agree_Cons:
  assumes "agree A v v'"
  shows "agree A (c # v) (c # v')"
proof -
  have j: "A (w @ v) = A (w @ v')" for w using assms by (simp add: agree_def)
  have "A (w @ c # v) = A (w @ c # v')" for w using j [of "w @ [c]"] by simp
  moreover have "A (c # v) = A (c # v')" using j [of "[c]"] by simp
  ultimately show ?thesis using assms by (simp add: agree_def)
qed

lemma agree_append: "agree A v v' \<Longrightarrow> agree A (u @ v) (u @ v')"
  by (induction u) (simp_all add: agree_Cons)

lemma agree_swap:
  assumes "\<And>w r r'. A (w @ a @ r) = A (w @ b @ r')"
    and "\<And>r. count_at A (a @ r) = count_at A r"
    and "\<And>r. count_at A (b @ r) = count_at A r"
    and "agree A v v'"
  shows "agree A (a @ v) (b @ v')"
  using assms by (simp add: agree_def)

lemma pieces_agree:
  assumes "\<And>m v v'. Inr m \<in> set ps \<Longrightarrow> agree A v v' \<Longrightarrow> agree A (fst m @ v) (repl m @ v')"
  shows "agree A (concat (map (case_sum (\<lambda>c. [c]) fst) ps))
                 (concat (map (case_sum (\<lambda>c. [c]) repl) ps))"
  using assms
proof (induction ps)
  case Nil
  show ?case by (simp add: agree_refl)
next
  case (Cons p ps)
  have ih: "agree A (concat (map (case_sum (\<lambda>c. [c]) fst) ps))
                 (concat (map (case_sum (\<lambda>c. [c]) repl) ps))"
    using Cons.IH Cons.prems by simp
  show ?case
  proof (cases p)
    case (Inl c)
    then show ?thesis using ih by (simp add: agree_Cons)
  next
    case (Inr m)
    then show ?thesis using Cons.prems [of m, OF _ ih] by simp
  qed
qed

lemma re_sub_agree:
  assumes "\<And>m v v'. is_match r ml m \<Longrightarrow> agree A v v' \<Longrightarrow> agree A (fst m @ v) (repl m @ v')"
  shows "agree A s (re_sub r ml repl s)"
proof -
  let ?ps = "scan_loop r ml False [] s"
  have "agree A (concat (map (case_sum (\<lambda>c. [c]) fst) ?ps))
                (concat (map (case_sum (\<lambda>c. [c]) repl) ?ps))"
    by (rule pieces_agree) (use assms scan_loop_matches in blast)
  then show ?thesis by (simp add: scan_loop_partition re_sub_def re_scan_def)
qed

lemma str_replace_agree:
  assumes ne: "old \<noteq> []"
    and swap: "\<And>v v'. agree A v v' \<Longrightarrow> agree A (old @ v) (new @ v')"
  shows "agree A s (str_replace old new s)"
proof (induction s rule: length_induct)
  case (1 s)
  show ?case
  proof (cases s)
    case Nil
    then show ?thesis using ne by (simp add: agree_refl)
  next
    case (Cons c cs)
    show ?thesis
    proof (cases "prefix old (c # cs)")
      case True
      let ?r = "drop (length old) s"
      have s: "s = old @ ?r" using True Cons by (auto simp: prefix_def)
      have "length ?r < length s" using Cons ne by simp
      then have ih: "agree A ?r (str_replace old new ?r)" using 1 by blast
      have out: "str_replace old new s = new @ str_replace old new ?r" using True Cons ne by simp
      have "agree A (old @ ?r) (new @ str_replace old new ?r)" using swap [OF ih] .
      then show ?thesis using s out by simp
    next
      case False
      have "length cs < length s" using Cons by simp
      then have ih: "agree A cs (str_replace old new cs)" using 1 by blast
      show ?thesis using False Cons ne agree_Cons [OF ih, of c] by simp
    qed
  qed
qed

lemma count_at_skip:
  assumes "\<And>s. A s \<Longrightarrow> prefix ''('' s"
  shows "CHR ''('' \<notin> set xs \<Longrightarrow> count_at A (xs @ ys) = count_at A ys"
proof (induction xs)
  case Nil
  then show ?case by simp
next
  case (Cons x xs)
  have "\<not> A (x # xs @ ys)" using assms [of "x # xs @ ys"] Cons.prems by auto
  then show ?case using Cons by simp
qed

lemma named_ref_at_paren: "named_ref_at s \<Longrightarrow> prefix ''('' s"
  by (cases s) (auto simp: named_ref_at_def)

lemma while_all:
  assumes "\<forall>x \<in> set xs. P x"
  shows "takeWhile P (xs @ ys) = xs @ takeWhile P ys" "dropWhile P (xs @ ys) = dropWhile P ys"
    "takeWhile P xs = xs" "dropWhile P xs = []"
  using assms by simp_all

lemma while_some:
  assumes "\<not> (\<forall>x \<in> set xs. P x)"
  shows "takeWhile P (xs @ ys) = takeWhile P xs" "dropWhile P (xs @ ys) = dropWhile P xs @ ys"
    "dropWhile P xs \<noteq> []"
proof -
  from assms obtain x where x: "x \<in> set xs" "\<not> P x" by blast
  show "takeWhile P (xs @ ys) = takeWhile P xs" using x by (rule takeWhile_append1)
  show "dropWhile P (xs @ ys) = dropWhile P xs @ ys" using x by (rule dropWhile_append1)
  show "dropWhile P xs \<noteq> []" using assms by simp
qed

lemma prefix_nonempty_append: "xs \<noteq> [] \<Longrightarrow> prefix [c] (xs @ ys) = prefix [c] xs"
  by (cases xs) simp_all

lemma list_cases4:
  obtains "w = []" | a where "w = [a]" | a b where "w = [a, b]" | a b d where "w = [a, b, d]"
    | a b d e w' where "w = a # b # d # e # w'"
proof (cases w)
  case Nil
  then show ?thesis using that by blast
next
  case c1: (Cons a w1)
  show ?thesis
  proof (cases w1)
    case Nil
    then show ?thesis using that c1 by blast
  next
    case c2: (Cons b w2)
    show ?thesis
    proof (cases w2)
      case Nil
      then show ?thesis using that c1 c2 by blast
    next
      case c3: (Cons d w3)
      show ?thesis
      proof (cases w3)
        case Nil
        then show ?thesis using that c1 c2 c3 by blast
      next
        case (Cons e w')
        then show ?thesis using that c1 c2 c3 by blast
      qed
    qed
  qed
qed

lemma named_ref_at_long:
  "named_ref_at (a # b # d # e # x) =
     ([a, b, d, e] = ''(?P='' \<and> takeWhile is_word x \<noteq> [] \<and> prefix '')'' (dropWhile is_word x))"
  by (auto simp: named_ref_at_def)

lemma named_ref_at_short:
  "\<not> named_ref_at []" "\<not> named_ref_at [a]" "\<not> named_ref_at [a, b]" "\<not> named_ref_at [a, b, d]"
  by (simp_all add: named_ref_at_def)

lemma named_ref_at_cut:
  assumes w: "w \<noteq> []" and c: "\<not> is_word c" "c \<noteq> CHR ''?''" "c \<noteq> CHR ''=''" "c \<noteq> CHR '')''"
  shows "named_ref_at (w @ c # r) = named_ref_at w"
proof (cases w rule: list_cases4)
  case 1
  then show ?thesis using w by simp
next
  case 2
  then show ?thesis using c by (simp add: named_ref_at_def)
next
  case 3
  have "c \<noteq> CHR ''P''" using c(1) by auto
  then show ?thesis using 3 c by (simp add: named_ref_at_def)
next
  case 4
  then show ?thesis using c by (simp add: named_ref_at_def)
next
  case (5 a b d e w')
  have tc: "takeWhile is_word (c # r) = []" "dropWhile is_word (c # r) = c # r" using c by simp_all
  have np: "\<not> prefix '')'' (c # r)" "\<not> prefix '')'' []" using c by simp_all
  show ?thesis
  proof (cases "\<forall>x \<in> set w'. is_word x")
    case True
    show ?thesis unfolding 5 append_Cons named_ref_at_long
      by (simp only: while_all [OF True] tc np append_Nil2 simp_thms)
  next
    case False
    have p: "prefix '')'' (dropWhile is_word w' @ ys) = prefix '')'' (dropWhile is_word w')" for ys
      using prefix_nonempty_append [OF while_some(3) [OF False]] .
    show ?thesis unfolding 5 append_Cons named_ref_at_long
      by (simp only: while_some(1,2) [OF False] p)
  qed
qed

lemma named_ref_at_stop:
  "named_ref_at (w @ CHR '')'' # r) = named_ref_at (w @ '')'')"
proof (cases w rule: list_cases4)
  case 1
  then show ?thesis by (simp add: named_ref_at_def)
next
  case 2
  then show ?thesis by (simp add: named_ref_at_def)
next
  case 3
  then show ?thesis by (simp add: named_ref_at_def)
next
  case 4
  then show ?thesis by (simp add: named_ref_at_def)
next
  case (5 a b d e w')
  have tc: "takeWhile is_word (CHR '')'' # ys) = []" "dropWhile is_word (CHR '')'' # ys) = CHR '')'' # ys"
    for ys by simp_all
  have np: "prefix '')'' (CHR '')'' # ys)" for ys by simp
  show ?thesis
  proof (cases "\<forall>x \<in> set w'. is_word x")
    case True
    show ?thesis unfolding 5 append_Cons named_ref_at_long
      by (simp only: while_all(1,2) [OF True] tc np append_Nil2)
  next
    case False
    have p: "prefix '')'' (dropWhile is_word w' @ ys) = prefix '')'' (dropWhile is_word w')" for ys
      using prefix_nonempty_append [OF while_some(3) [OF False]] .
    show ?thesis unfolding 5 append_Cons named_ref_at_long
      by (simp only: while_some(1,2) [OF False] p)
  qed
qed

text \<open>
  An occurrence of \<open>(?P=name)\<close> begins with the only parenthesis it holds and ends with
  the first character after \<open>(?P=\<close> that is not a word character.
\<close>

lemma not_ref_start: "c \<noteq> CHR ''('' \<Longrightarrow> \<not> named_ref_at (c # r)"
  using named_ref_at_paren [of "c # r"] by auto

lemma not_word_misc [simp]: "\<not> is_word BSL" "\<not> is_word (CHR ''^'')" "\<not> is_word (CHR ''$'')"
  "\<not> is_word SQ" "\<not> is_word DQ" "\<not> is_word (CHR ''>'')" "\<not> is_word (CHR ''<'')"
  by (simp_all add: is_word_def BSL_def SQ_def DQ_def)

lemma bsl_neq_paren [simp]: "BSL \<noteq> CHR ''(''" "BSL \<noteq> CHR ''?''" "BSL \<noteq> CHR ''=''"
  "BSL \<noteq> CHR '')''" "BSL \<noteq> CHR ''>''"
  by (simp_all add: BSL_def)

lemma ref_swap_anchor:
  assumes c: "c \<noteq> CHR ''(''" and d: "d = CHR ''^'' \<or> d = CHR ''$''"
    and v: "agree named_ref_at v v'"
  shows "agree named_ref_at ([BSL, c] @ v) ([d] @ v')"
proof (rule agree_swap [OF _ _ _ v])
  fix w r r'
  show "named_ref_at (w @ [BSL, c] @ r) = named_ref_at (w @ [d] @ r')"
  proof (cases "w = []")
    case True
    then show ?thesis using d by (auto simp: not_ref_start BSL_def)
  next
    case False
    have "named_ref_at (w @ BSL # c # r) = named_ref_at w"
      by (rule named_ref_at_cut [OF False]) simp_all
    moreover have "named_ref_at (w @ d # r') = named_ref_at w"
      by (rule named_ref_at_cut [OF False]) (use d in auto)
    ultimately show ?thesis by simp
  qed
next
  fix r
  show "count_at named_ref_at ([BSL, c] @ r) = count_at named_ref_at r"
    using c by (simp add: not_ref_start BSL_def)
  show "count_at named_ref_at ([d] @ r) = count_at named_ref_at r"
    using d by (auto simp: not_ref_start)
qed

lemma ref_swap_open:
  assumes a: "a = ''(?P<'' \<or> a = ''(?:'' \<or> a = ''(?:(?:''"
    and b: "b = ''(?<'' \<or> b = ''(?:'' \<or> b = ''(?:(?:''"
    and v: "agree named_ref_at v v'"
  shows "agree named_ref_at (a @ v) (b @ v')"
proof (rule agree_swap [OF _ _ _ v])
  have na: "\<not> named_ref_at (a @ r)" for r using a by (auto simp: named_ref_at_def)
  have nb: "\<not> named_ref_at (b @ r)" for r using b by (auto simp: named_ref_at_def)
  have ca: "w \<noteq> [] \<Longrightarrow> named_ref_at (w @ a @ r) = named_ref_at w" for w r
    using a named_ref_at_cut [of w "CHR ''(''"] by auto
  have cb: "w \<noteq> [] \<Longrightarrow> named_ref_at (w @ b @ r) = named_ref_at w" for w r
    using b named_ref_at_cut [of w "CHR ''(''"] by auto
  fix w r r'
  show "named_ref_at (w @ a @ r) = named_ref_at (w @ b @ r')"
    using na nb ca cb by (cases "w = []") simp_all
  show "count_at named_ref_at (a @ r) = count_at named_ref_at r"
    using a by (auto simp: not_ref_start named_ref_at_def)
  show "count_at named_ref_at (b @ r) = count_at named_ref_at r"
    using b by (auto simp: not_ref_start named_ref_at_def)
qed

lemma ref_swap_close:
  assumes v: "agree named_ref_at v v'"
  shows "agree named_ref_at ('')?'' @ v) ('')?)?'' @ v')"
proof (rule agree_swap [OF _ _ _ v])
  fix w r r'
  show "named_ref_at (w @ '')?'' @ r) = named_ref_at (w @ '')?)?'' @ r')"
    using named_ref_at_stop [of w "''?'' @ r"] named_ref_at_stop [of w "''?)?'' @ r'"] by simp
  show "count_at named_ref_at ('')?'' @ r) = count_at named_ref_at r"
    by (simp add: not_ref_start)
  show "count_at named_ref_at ('')?)?'' @ r) = count_at named_ref_at r"
    by (simp add: not_ref_start)
qed

lemma cc_agree_refs: "agree named_ref_at s (conservative_conversion s)"
proof -
  let ?s1 = "str_replace [BSL, CHR ''A''] ''^'' s"
  let ?s2 = "str_replace [BSL, CHR ''Z''] ''$'' ?s1"
  let ?s3 = "re_sub re_named_group False (\<lambda>m. ''(?<'' @ group m 1 @ ''>'') ?s2"
  let ?s4 = "re_sub re_optional_group False (\<lambda>m. ''(?:'' @ group m 0 @ '')?'') ?s3"
  have 1: "agree named_ref_at s ?s1"
  proof (rule str_replace_agree)
    show "[BSL, CHR ''A''] \<noteq> []" by simp
  next
    fix v v'
    assume "agree named_ref_at v v'"
    then show "agree named_ref_at ([BSL, CHR ''A''] @ v) (''^'' @ v')"
      by (rule ref_swap_anchor [rotated 2]) simp_all
  qed
  have 2: "agree named_ref_at ?s1 ?s2"
  proof (rule str_replace_agree)
    show "[BSL, CHR ''Z''] \<noteq> []" by simp
  next
    fix v v'
    assume "agree named_ref_at v v'"
    then show "agree named_ref_at ([BSL, CHR ''Z''] @ v) (''$'' @ v')"
      by (rule ref_swap_anchor [rotated 2]) simp_all
  qed
  have 3: "agree named_ref_at ?s2 ?s3"
  proof (rule re_sub_agree)
    fix m v v'
    assume "is_match re_named_group False m" and v: "agree named_ref_at v v'"
    then have f: "fst m = ''(?P<'' @ group m 1 @ ''>''" by (simp only: named_group_match)
    have "agree named_ref_at ((group m 1 @ ''>'') @ v) ((group m 1 @ ''>'') @ v')"
      using v by (rule agree_append)
    then have "agree named_ref_at (''(?P<'' @ (group m 1 @ ''>'') @ v) (''(?<'' @ (group m 1 @ ''>'') @ v')"
      by (rule ref_swap_open [rotated 2]) simp_all
    then show "agree named_ref_at (fst m @ v) ((''(?<'' @ group m 1 @ ''>'') @ v')"
      by (simp only: f append_assoc)
  qed
  have 4: "agree named_ref_at ?s3 ?s4"
  proof (rule re_sub_agree)
    fix m v v'
    assume "is_match re_optional_group False m" and v: "agree named_ref_at v v'"
    then obtain w where f: "fst m = ''(?:'' @ w @ '')?''" using optional_group_match by blast
    have g: "group m 0 = ''(?:'' @ w @ '')?''" using f by (simp add: group0)
    have "agree named_ref_at ('')?'' @ v) ('')?)?'' @ v')" using v by (rule ref_swap_close)
    then have "agree named_ref_at (w @ '')?'' @ v) (w @ '')?)?'' @ v')" by (rule agree_append)
    then have "agree named_ref_at (''(?:'' @ w @ '')?'' @ v) (''(?:(?:'' @ w @ '')?)?'' @ v')"
      by (rule ref_swap_open [rotated 2]) simp_all
    then show "agree named_ref_at (fst m @ v) ((''(?:'' @ group m 0 @ '')?'') @ v')"
      unfolding f g by simp
  qed
  have "agree named_ref_at s ?s4" using 1 2 3 4 agree_trans by blast
  then show ?thesis by (simp add: conservative_conversion_def)
qed

lemma cc_named_refs: "count_named_refs (conservative_conversion s) = count_named_refs s"
  using agree_count [OF cc_agree_refs [of s]] by (simp add: count_named_refs_at)

text \<open>The opener \<open>(?>\<close> of an atomic group, in the same way.\<close>

lemma str_in_count: "old \<noteq> [] \<Longrightarrow> str_in old s = (0 < count_occ old s)"
  by (induction s) auto

lemma atomic_at_cut:
  assumes "w \<noteq> []" "c \<noteq> CHR ''?''" "c \<noteq> CHR ''>''"
  shows "prefix ''(?>'' (w @ c # r) = prefix ''(?>'' w"
  using assms by (cases w rule: list_cases4) simp_all

lemma atomic_at_paren: "prefix ''(?>'' s \<Longrightarrow> prefix ''('' s"
  by (cases s) auto

lemma atomic_swap:
  assumes a: "a \<noteq> []" "hd a \<noteq> CHR ''?''" "hd a \<noteq> CHR ''>''" "\<And>r. \<not> prefix ''(?>'' (a @ r)"
      "\<And>r. count_at (prefix ''(?>'') (a @ r) = count_at (prefix ''(?>'') r"
    and b: "b \<noteq> []" "hd b \<noteq> CHR ''?''" "hd b \<noteq> CHR ''>''" "\<And>r. \<not> prefix ''(?>'' (b @ r)"
      "\<And>r. count_at (prefix ''(?>'') (b @ r) = count_at (prefix ''(?>'') r"
    and v: "agree (prefix ''(?>'') v v'"
  shows "agree (prefix ''(?>'') (a @ v) (b @ v')"
proof (rule agree_swap [OF _ _ _ v])
  have cut: "prefix ''(?>'' (w @ x @ r) = prefix ''(?>'' w"
    if h: "w \<noteq> []" "x \<noteq> []" "hd x \<noteq> CHR ''?''" "hd x \<noteq> CHR ''>''" for w x r
  proof -
    obtain c cs where x: "x = c # cs" using h(2) by (cases x) auto
    show ?thesis using atomic_at_cut [OF h(1), of c "cs @ r"] h(3,4) x by simp
  qed
  fix w r r'
  show "prefix ''(?>'' (w @ a @ r) = prefix ''(?>'' (w @ b @ r')"
  proof (cases "w = []")
    case True
    then show ?thesis using a(4) b(4) by simp
  next
    case False
    then show ?thesis using cut [OF False a(1,2,3)] cut [OF False b(1,2,3)] by simp
  qed
  show "count_at (prefix ''(?>'') (a @ r) = count_at (prefix ''(?>'') r" by (rule a(5))
  show "count_at (prefix ''(?>'') (b @ r) = count_at (prefix ''(?>'') r" by (rule b(5))
qed

lemma named_ref_match:
  assumes "is_match re_named_ref ml m"
  shows "fst m = ''(?P='' @ group m 1 @ '')'' \<and> (\<forall>c \<in> set (group m 1). is_word c)"
proof -
  from assms obtain adv bef aft where
    m: "match_at re_named_ref ml adv bef aft = Some (length (fst m), snd m)"
    and f: "fst m = take (length (fst m)) aft"
    unfolding is_match_def by blast
  let ?w = "takeWhile is_word (drop 4 aft)"
  have na: "named_ref_at aft" using m by (simp add: named_ref_match_at split: if_splits)
  have len: "length (fst m) = 5 + length ?w" and caps: "snd m = [(1, ?w)]"
    using m na by (simp_all add: named_ref_match_at)
  from na obtain a1 where aft: "aft = ''(?P='' @ a1" by (auto simp: named_ref_at_def prefix_def)
  have d4: "drop 4 aft = a1" using aft by simp
  from na obtain r where dw: "dropWhile is_word a1 = CHR '')'' # r"
    using d4 by (auto simp: named_ref_at_def prefix_def)
  have a1: "a1 = ?w @ CHR '')'' # r" using dw d4 by (metis takeWhile_dropWhile_id)
  define x where "x = ''(?P='' @ ?w @ '')''"
  have whole: "aft = x @ r" unfolding x_def by (subst aft, subst a1) simp
  have l: "length (fst m) = length x" using len by (simp add: x_def)
  have "fst m = take (length (fst m)) aft" by (rule f)
  also have "\<dots> = take (length x) (x @ r)" by (simp only: l whole)
  also have "\<dots> = x" by simp
  finally have fm: "fst m = ''(?P='' @ ?w @ '')''" by (simp only: x_def)
  have g: "group m 1 = ?w" using caps by (cases m) simp
  have "\<forall>c \<in> set ?w. is_word c" by (auto dest: set_takeWhileD)
  then show ?thesis using fm g by simp
qed

lemma lit_match: 
  assumes "is_match (Lit w) ml m"
  shows "fst m = w"
proof -
  from assms obtain adv bef aft where
    m: "match_at (Lit w) ml adv bef aft = Some (length (fst m), snd m)"
    and f: "fst m = take (length (fst m)) aft"
    unfolding is_match_def by blast
  from match_at_state [OF m] obtain t where
    t: "t \<in> set (rmatch (Lit w) ml (bef, aft, []))"
    and n: "length (fst m) = length aft - remaining t" by blast
  from t obtain r where "aft = w @ r" "remaining t = length r"
    by (auto simp: prefix_def split: if_splits)
  then show ?thesis using f n by simp
qed

lemma atomic_swap_anchor:
  assumes c: "c \<noteq> CHR ''(''" and d: "d = CHR ''^'' \<or> d = CHR ''$''"
    and v: "agree (prefix ''(?>'') v v'"
  shows "agree (prefix ''(?>'') ([BSL, c] @ v) ([d] @ v')"
  by (rule atomic_swap [OF _ _ _ _ _ _ _ _ _ _ v]) (use c d in \<open>auto simp: BSL_def\<close>)

lemma atomic_swap_open:
  assumes a: "a = ''(?P<'' \<or> a = ''(?:'' \<or> a = ''(?:(?:''"
    and b: "b = ''(?<'' \<or> b = ''(?:'' \<or> b = ''(?:(?:''"
    and v: "agree (prefix ''(?>'') v v'"
  shows "agree (prefix ''(?>'') (a @ v) (b @ v')"
  by (rule atomic_swap [OF _ _ _ _ _ _ _ _ _ _ v]) (use a b in auto)

lemma atomic_swap_close:
  assumes v: "agree (prefix ''(?>'') v v'"
  shows "agree (prefix ''(?>'') ('')?'' @ v) ('')?)?'' @ v')"
  by (rule atomic_swap [OF _ _ _ _ _ _ _ _ _ _ v]) auto

lemma atomic_count_skip:
  "CHR ''('' \<notin> set xs \<Longrightarrow> count_at (prefix ''(?>'') (xs @ ys) = count_at (prefix ''(?>'') ys"
  by (rule count_at_skip [where A = "prefix ''(?>''"]) (rule atomic_at_paren)

lemma atomic_swap_ref:
  assumes n: "\<forall>c \<in> set n. is_word c" and v: "agree (prefix ''(?>'') v v'"
  shows "agree (prefix ''(?>'') ((''(?P='' @ n @ '')'') @ v) (([BSL] @ ''k<'' @ n @ ''>'') @ v')"
proof (rule atomic_swap [OF _ _ _ _ _ _ _ _ _ _ v])
  have np: "CHR ''('' \<notin> set n" using n by auto
  fix r
  show "count_at (prefix ''(?>'') ((''(?P='' @ n @ '')'') @ r) = count_at (prefix ''(?>'') r"
    using atomic_count_skip [of "''?P='' @ n @ '')''" r] np by simp
  show "count_at (prefix ''(?>'') (([BSL] @ ''k<'' @ n @ ''>'') @ r) = count_at (prefix ''(?>'') r"
    using atomic_count_skip [of "[BSL] @ ''k<'' @ n @ ''>''" r] np by simp
qed (simp_all)

lemma cc_agree_atomic: "agree (prefix ''(?>'') s (conservative_conversion s)"
proof -
  let ?s1 = "str_replace [BSL, CHR ''A''] ''^'' s"
  let ?s2 = "str_replace [BSL, CHR ''Z''] ''$'' ?s1"
  let ?s3 = "re_sub re_named_group False (\<lambda>m. ''(?<'' @ group m 1 @ ''>'') ?s2"
  let ?s4 = "re_sub re_optional_group False (\<lambda>m. ''(?:'' @ group m 0 @ '')?'') ?s3"
  have 1: "agree (prefix ''(?>'') s ?s1"
  proof (rule str_replace_agree)
    show "[BSL, CHR ''A''] \<noteq> []" by simp
  next
    fix v v'
    assume "agree (prefix ''(?>'') v v'"
    then show "agree (prefix ''(?>'') ([BSL, CHR ''A''] @ v) (''^'' @ v')"
      by (rule atomic_swap_anchor [rotated 2]) simp_all
  qed
  have 2: "agree (prefix ''(?>'') ?s1 ?s2"
  proof (rule str_replace_agree)
    show "[BSL, CHR ''Z''] \<noteq> []" by simp
  next
    fix v v'
    assume "agree (prefix ''(?>'') v v'"
    then show "agree (prefix ''(?>'') ([BSL, CHR ''Z''] @ v) (''$'' @ v')"
      by (rule atomic_swap_anchor [rotated 2]) simp_all
  qed
  have 3: "agree (prefix ''(?>'') ?s2 ?s3"
  proof (rule re_sub_agree)
    fix m v v'
    assume "is_match re_named_group False m" and v: "agree (prefix ''(?>'') v v'"
    then have f: "fst m = ''(?P<'' @ group m 1 @ ''>''" by (simp only: named_group_match)
    have "agree (prefix ''(?>'') ((group m 1 @ ''>'') @ v) ((group m 1 @ ''>'') @ v')"
      using v by (rule agree_append)
    then have "agree (prefix ''(?>'') (''(?P<'' @ (group m 1 @ ''>'') @ v) (''(?<'' @ (group m 1 @ ''>'') @ v')"
      by (rule atomic_swap_open [rotated 2]) simp_all
    then show "agree (prefix ''(?>'') (fst m @ v) ((''(?<'' @ group m 1 @ ''>'') @ v')"
      by (simp only: f append_assoc)
  qed
  have 4: "agree (prefix ''(?>'') ?s3 ?s4"
  proof (rule re_sub_agree)
    fix m v v'
    assume "is_match re_optional_group False m" and v: "agree (prefix ''(?>'') v v'"
    then obtain w where f: "fst m = ''(?:'' @ w @ '')?''" using optional_group_match by blast
    have g: "group m 0 = ''(?:'' @ w @ '')?''" using f by (simp add: group0)
    have "agree (prefix ''(?>'') ('')?'' @ v) ('')?)?'' @ v')" using v by (rule atomic_swap_close)
    then have "agree (prefix ''(?>'') (w @ '')?'' @ v) (w @ '')?)?'' @ v')" by (rule agree_append)
    then have "agree (prefix ''(?>'') (''(?:'' @ w @ '')?'' @ v) (''(?:(?:'' @ w @ '')?)?'' @ v')"
      by (rule atomic_swap_open [rotated 2]) simp_all
    then show "agree (prefix ''(?>'') (fst m @ v) ((''(?:'' @ group m 0 @ '')?'') @ v')"
      unfolding f g by simp
  qed
  have "agree (prefix ''(?>'') s ?s4" using 1 2 3 4 agree_trans by blast
  then show ?thesis by (simp add: conservative_conversion_def)
qed

lemma noncapturing_id: "re_sub re_noncapturing False (\<lambda>m. ''(?:'') t = t"
  unfolding re_noncapturing_def by (rule re_sub_keeps) (simp add: lit_match)

lemma groups_agree_atomic: "agree (prefix ''(?>'') s (after_groups s)"
proof -
  let ?c = "conservative_conversion s"
  let ?r = "re_sub re_named_ref False (\<lambda>m. [BSL] @ ''k<'' @ group m 1 @ ''>'') ?c"
  have 1: "agree (prefix ''(?>'') ?c ?r"
  proof (rule re_sub_agree)
    fix m v v'
    assume m: "is_match re_named_ref False m" and v: "agree (prefix ''(?>'') v v'"
    have f: "fst m = ''(?P='' @ group m 1 @ '')''" and n: "\<forall>c \<in> set (group m 1). is_word c"
      using named_ref_match [OF m] by simp_all
    show "agree (prefix ''(?>'') (fst m @ v) (([BSL] @ ''k<'' @ group m 1 @ ''>'') @ v')"
      by (subst f) (rule atomic_swap_ref [OF n v])
  qed
  have "after_groups s = ?r"
    unfolding after_groups_def preserve_id noncapturing_id named_refs_result fst_conv ..
  then show ?thesis using cc_agree_atomic [of s] 1 agree_trans by metis
qed

lemma groups_atomic: "str_in ''(?>'' (after_groups s) = str_in ''(?>'' s"
  using agree_count [OF groups_agree_atomic [of s]] by (simp add: str_in_count count_occ_at)

text \<open>Stripping the marker and the quotes touches no occurrence of either construct.\<close>

lemma count_at_dropWhile:
  assumes "\<And>s. A s \<Longrightarrow> prefix ''('' s" and "\<not> P (CHR ''('')"
  shows "count_at A (dropWhile P s) = count_at A s"
proof -
  have "CHR ''('' \<notin> set (takeWhile P s)" using assms(2) by (auto dest: set_takeWhileD)
  then have "count_at A (takeWhile P s @ dropWhile P s) = count_at A (dropWhile P s)"
    using count_at_skip [of A "takeWhile P s" "dropWhile P s"] assms(1) by blast
  then show ?thesis by simp
qed

lemma count_at_rstrip:
  assumes cut: "\<And>w c r. w \<noteq> [] \<Longrightarrow> P c \<Longrightarrow> A (w @ c # r) = A w"
    and paren: "\<And>s. A s \<Longrightarrow> prefix ''('' s" and np: "\<not> P (CHR ''('')"
  shows "count_at A (rev (dropWhile P (rev s))) = count_at A s"
proof -
  let ?core = "rev (dropWhile P (rev s))"
  let ?tail = "rev (takeWhile P (rev s))"
  have s: "s = ?core @ ?tail"
    by (metis rev_append rev_rev_ident takeWhile_dropWhile_id)
  have all: "\<forall>c \<in> set ?tail. P c" by (auto dest: set_takeWhileD)
  have nil: "\<not> A []" using paren [of "[]"] by auto
  have j: "A (w @ []) = A (w @ ?tail)" for w
  proof (cases ?tail)
    case Nil
    then show ?thesis by simp
  next
    case (Cons c r)
    then have pc: "P c" using all by simp
    show ?thesis
    proof (cases "w = []")
      case True
      have "c \<noteq> CHR ''(''" using pc np by auto
      then have "\<not> A (c # r)" using paren [of "c # r"] by auto
      then show ?thesis using True Cons nil by simp
    next
      case False
      show ?thesis using cut [OF False pc, of r] Cons by simp
    qed
  qed
  have "CHR ''('' \<notin> set ?tail" using all np by auto
  then have "count_at A (?tail @ []) = count_at A []"
    using count_at_skip [of A ?tail "[]"] paren by blast
  then have "agree A [] ?tail" using j by (simp add: agree_def)
  then have "agree A (?core @ []) (?core @ ?tail)" by (rule agree_append)
  then have "count_at A ?core = count_at A (?core @ ?tail)" by (simp add: agree_def)
  then show ?thesis using s by simp
qed

lemma strip_count:
  assumes cut: "\<And>w c r. w \<noteq> [] \<Longrightarrow> c = SQ \<or> c = DQ \<Longrightarrow> A (w @ c # r) = A w"
    and paren: "\<And>s. A s \<Longrightarrow> prefix ''('' s"
  shows "count_at A (py_strip [SQ, DQ] (py_lstrip ''r'' p)) = count_at A p"
proof -
  let ?Q = "\<lambda>c. c \<in> set [SQ, DQ]"
  let ?R = "\<lambda>c. c \<in> set ''r''"
  have q: "\<not> ?Q (CHR ''('')" by (simp add: SQ_def DQ_def)
  have r: "\<not> ?R (CHR ''('')" by simp
  have "count_at A (rev (dropWhile ?Q (rev (dropWhile ?Q (dropWhile ?R p))))) =
        count_at A (dropWhile ?Q (dropWhile ?R p))"
    by (rule count_at_rstrip [where P = ?Q and A = A]) (use cut paren q in auto)
  also have "\<dots> = count_at A (dropWhile ?R p)"
    by (rule count_at_dropWhile [where P = ?Q and A = A]) (use paren q in auto)
  also have "\<dots> = count_at A p"
    by (rule count_at_dropWhile [where P = ?R and A = A]) (use paren r in auto)
  finally show ?thesis by (simp only: py_strip_def py_rstrip_def py_lstrip_def)
qed

lemma strip_named_refs:
  "count_named_refs (py_strip [SQ, DQ] (py_lstrip ''r'' p)) = count_named_refs p"
  unfolding count_named_refs_at
proof (rule strip_count [where A = named_ref_at])
  show "named_ref_at s \<Longrightarrow> prefix ''('' s" for s by (rule named_ref_at_paren)
next
  fix w :: string and c r
  assume "w \<noteq> []" and "c = SQ \<or> c = DQ"
  then show "named_ref_at (w @ c # r) = named_ref_at w"
    by (intro named_ref_at_cut) (auto simp: SQ_def DQ_def is_word_def)
qed

lemma strip_atomic:
  "str_in ''(?>'' (py_strip [SQ, DQ] (py_lstrip ''r'' p)) = str_in ''(?>'' p"
proof -
  have "count_at (prefix ''(?>'') (py_strip [SQ, DQ] (py_lstrip ''r'' p)) =
        count_at (prefix ''(?>'') p"
  proof (rule strip_count [where A = "prefix ''(?>''"])
    show "prefix ''(?>'' s \<Longrightarrow> prefix ''('' s" for s by (rule atomic_at_paren)
  next
    fix w :: string and c r
    assume "w \<noteq> []" and "c = SQ \<or> c = DQ"
    then show "prefix ''(?>'' (w @ c # r) = prefix ''(?>'' w"
      by (intro atomic_at_cut) (auto simp: SQ_def DQ_def)
  qed
  then show ?thesis by (simp add: str_in_count count_occ_at)
qed

lemma diagnostic_kinds:
  "named_ref_diagnostic (named_ref_warning n)" "\<not> named_ref_diagnostic atomic_warning"
  "\<not> named_ref_diagnostic unicode_warning" "\<not> named_ref_diagnostic lookbehind_warning"
  "\<not> named_ref_diagnostic any_char_warning" "\<not> named_ref_diagnostic conditional_warning"
  by (simp_all add: named_ref_diagnostic_def named_ref_warning_def atomic_warning_def
      unicode_warning_def lookbehind_warning_def any_char_warning_def conditional_warning_def SQ_def)

lemma named_ref_diagnostics:
  "filter named_ref_diagnostic (conv_warnings t) =
   snd (handle_named_group_references (conservative_conversion t))"
proof -
  have 1: "filter named_ref_diagnostic (snd (handle_named_group_references u)) =
      snd (handle_named_group_references u)" for u
    by (simp add: named_refs_result diagnostic_kinds)
  have 2: "filter named_ref_diagnostic (snd (handle_atomic_groups u)) = []" for u
    by (simp add: atomic_snd diagnostic_kinds)
  have 3: "filter named_ref_diagnostic (snd (handle_unicode_properties u)) = []" for u
    by (simp add: handle_unicode_properties_def diagnostic_kinds)
  have 4: "filter named_ref_diagnostic (if b then [lookbehind_warning] else []) = []" for b
    by (simp add: diagnostic_kinds)
  have 5: "filter named_ref_diagnostic (if b then [any_char_warning] else []) = []" for b
    by (simp add: diagnostic_kinds)
  have 6: "filter named_ref_diagnostic (check_unsupported_features u) = []" for u
    by (simp add: check_unsupported_features_def diagnostic_kinds)
  show ?thesis
    unfolding conv_warnings_def filter_append by (simp only: 1 2 3 4 5 6 append_Nil2)
qed

lemma atomic_diagnostics:
  "count_list (conv_warnings t) atomic_warning = (if str_in ''(?>'' t then 1 else 0)"
proof -
  have 1: "count_list (snd (handle_named_group_references u)) atomic_warning = 0" for u
    by (simp only: named_refs_result snd_conv count_named_ref_warnings)
  have 2: "count_list (snd (handle_atomic_groups (after_groups t))) atomic_warning =
      (if str_in ''(?>'' t then 1 else 0)"
    by (simp add: atomic_snd groups_atomic)
  have 3: "count_list (snd (handle_unicode_properties u)) atomic_warning = 0" for u
    by (simp add: handle_unicode_properties_def atomic_warning_distinct)
  have 4: "count_list (if b then [lookbehind_warning] else []) atomic_warning = 0" for b
    by (simp add: atomic_warning_distinct)
  have 5: "count_list (if b then [any_char_warning] else []) atomic_warning = 0" for b
    by (simp add: atomic_warning_distinct)
  have 6: "count_list (check_unsupported_features u) atomic_warning = 0" for u
    by (simp add: check_unsupported_features_def atomic_warning_distinct)
  show ?thesis
    unfolding conv_warnings_def count_list_append by (simp only: 1 2 3 4 5 6 add_0 add_0_right)
qed

text \<open>What the two stripping calls return on a pattern behind markers and between quotes.\<close>

lemma lstrip_exact:
  assumes "\<not> prefix ''r'' s"
  shows "py_lstrip ''r'' (replicate n (CHR ''r'') @ s) = s"
proof -
  have "dropWhile (\<lambda>c. c \<in> set ''r'') s = s" using assms by (cases s) auto
  then have "py_lstrip ''r'' s = s" by (simp only: py_lstrip_def)
  then show ?thesis by (simp only: lstrip_marker)
qed

lemma strip_exact:
  assumes qa: "set qa \<subseteq> set chars" and qb: "set qb \<subseteq> set chars"
    and h: "t \<noteq> [] \<longrightarrow> hd t \<notin> set chars \<and> last t \<notin> set chars"
  shows "py_strip chars (qa @ t @ qb) = t"
proof -
  let ?Q = "\<lambda>c. c \<in> set chars"
  have a: "\<forall>c \<in> set qa. ?Q c" and b: "\<forall>c \<in> set (rev qb). ?Q c" using qa qb by auto
  show ?thesis
  proof (cases t)
    case Nil
    have "\<forall>c \<in> set (qa @ qb). ?Q c" using qa qb by auto
    then have "dropWhile ?Q (qa @ qb) = []" by (simp only: dropWhile_eq_Nil_conv)
    then have "rev (dropWhile ?Q (rev (dropWhile ?Q (qa @ [] @ qb)))) = []"
      by (simp only: append_Nil rev.simps dropWhile.simps)
    then show ?thesis unfolding Nil by (simp only: py_strip_def py_rstrip_def py_lstrip_def)
  next
    case (Cons c t')
    have 1: "dropWhile ?Q (qa @ t @ qb) = t @ qb"
      using h Cons by (simp add: while_all(2) [OF a])
    have "rev t \<noteq> []" using Cons by simp
    then obtain d u where r: "rev t = d # u" by (cases "rev t") auto
    have "d = last t" using r Cons by (metis last_rev list.sel(1) rev_is_Nil_conv rev_rev_ident hd_rev)
    then have nd: "\<not> ?Q d" using h Cons by simp
    have 2: "dropWhile ?Q (rev (t @ qb)) = rev t"
      using nd r by (simp add: while_all(2) [OF b])
    show ?thesis by (simp only: py_strip_def py_rstrip_def py_lstrip_def 1 2 rev_rev_ident)
  qed
qed

lemma quoted_conversion:
  "set qa \<subseteq> {SQ, DQ} \<and> set qb \<subseteq> {SQ, DQ} \<and>
  \<not> prefix [SQ] t \<and> \<not> prefix [DQ] t \<and> \<not> suffix [SQ] t \<and> \<not> suffix [DQ] t \<longrightarrow>
    py_strip [SQ, DQ] (qa @ t @ qb) = t \<and>
    (\<not> prefix ''r'' t \<longrightarrow>
       py_to_js_regex (replicate n (CHR ''r'') @ qa @ t @ qb) f False = py_to_js_regex t f False \<and>
       fst (py_to_js_regex (replicate n (CHR ''r'') @ qa @ t @ qb) f v) =
         fst (py_to_js_regex t f v) \<and>
       fst (snd (py_to_js_regex (replicate n (CHR ''r'') @ qa @ t @ qb) f v)) =
         fst (snd (py_to_js_regex t f v)))"
proof (intro impI)
  assume h: "set qa \<subseteq> {SQ, DQ} \<and> set qb \<subseteq> {SQ, DQ} \<and>
    \<not> prefix [SQ] t \<and> \<not> prefix [DQ] t \<and> \<not> suffix [SQ] t \<and> \<not> suffix [DQ] t"
  have ends: "t \<noteq> [] \<longrightarrow> hd t \<notin> set [SQ, DQ] \<and> last t \<notin> set [SQ, DQ]"
  proof
    assume ne: "t \<noteq> []"
    then obtain c cs where t: "t = c # cs" by (cases t) auto
    have "hd t \<noteq> SQ" "hd t \<noteq> DQ" using h t by auto
    moreover have "t = butlast t @ [last t]" using ne by simp
    then have "suffix [last t] t" unfolding suffix_def by blast
    then have "last t \<noteq> SQ" "last t \<noteq> DQ" using h by auto
    ultimately show "hd t \<notin> set [SQ, DQ] \<and> last t \<notin> set [SQ, DQ]" by simp
  qed
  have sx: "py_strip [SQ, DQ] (qa @ t @ qb) = t"
    by (rule strip_exact) (use h ends in auto)
  have s0: "py_strip [SQ, DQ] t = t"
    using strip_exact [of "[]" "[SQ, DQ]" "[]" t] ends by simp
  have drv: "py_to_js_regex (replicate n (CHR ''r'') @ qa @ t @ qb) f False = py_to_js_regex t f False \<and>
       fst (py_to_js_regex (replicate n (CHR ''r'') @ qa @ t @ qb) f v) =
         fst (py_to_js_regex t f v) \<and>
       fst (snd (py_to_js_regex (replicate n (CHR ''r'') @ qa @ t @ qb) f v)) =
         fst (snd (py_to_js_regex t f v))" if r: "\<not> prefix ''r'' t"
  proof -
    have nr: "\<not> prefix ''r'' (qa @ t @ qb)"
    proof (cases qa)
      case (Cons c cs)
      then have "c = SQ \<or> c = DQ" using h by auto
      then show ?thesis using Cons by (auto simp: SQ_def DQ_def)
    next
      case Nil
      show ?thesis
      proof (cases t)
        case (Cons c cs)
        then show ?thesis using r Nil by simp
      next
        case tn: Nil
        show ?thesis
        proof (cases qb)
          case Nil
          then show ?thesis using tn \<open>qa = []\<close> by simp
        next
          case (Cons c cs)
          then have "c = SQ \<or> c = DQ" using h by auto
          then show ?thesis using Cons tn \<open>qa = []\<close> by (auto simp: SQ_def DQ_def)
        qed
      qed
    qed
    have l1: "py_lstrip ''r'' (replicate n (CHR ''r'') @ qa @ t @ qb) = qa @ t @ qb"
      using lstrip_exact [OF nr] .
    have l0: "py_lstrip ''r'' t = t" using lstrip_exact [OF r, of 0] by simp
    have same: "py_strip [SQ, DQ] (py_lstrip ''r'' (replicate n (CHR ''r'') @ qa @ t @ qb)) =
        py_strip [SQ, DQ] (py_lstrip ''r'' t)"
      by (simp only: l1 l0 sx s0)
    have st': "stripped (replicate n (CHR ''r'') @ qa @ t @ qb) f = stripped t f"
      unfolding stripped_def by (simp only: same)
    have a: "py_to_js_regex (replicate n (CHR ''r'') @ qa @ t @ qb) f False = py_to_js_regex t f False"
      by (rule driver_same) (rule same)
    have b: "fst (py_to_js_regex (replicate n (CHR ''r'') @ qa @ t @ qb) f v) =
         fst (py_to_js_regex t f v)"
      by (simp only: driver_regex st')
    have c: "fst (snd (py_to_js_regex (replicate n (CHR ''r'') @ qa @ t @ qb) f v)) =
         fst (snd (py_to_js_regex t f v))"
      by (simp only: driver_warnings st')
    show ?thesis by (intro conjI a b c)
  qed
  show "py_strip [SQ, DQ] (qa @ t @ qb) = t \<and>
    (\<not> prefix ''r'' t \<longrightarrow>
       py_to_js_regex (replicate n (CHR ''r'') @ qa @ t @ qb) f False = py_to_js_regex t f False \<and>
       fst (py_to_js_regex (replicate n (CHR ''r'') @ qa @ t @ qb) f v) =
         fst (py_to_js_regex t f v) \<and>
       fst (snd (py_to_js_regex (replicate n (CHR ''r'') @ qa @ t @ qb) f v)) =
         fst (snd (py_to_js_regex t f v)))"
    using sx drv by blast
qed

section \<open>The delimiter balancer on a dangling escape\<close>

text \<open>
  C1. The balancer drops no character (\<open>input_kept\<close>), and its output has as many
  non-escaped opening as non-escaped closing parentheses whenever the input does not end
  in a dangling escape (\<open>balanced_without_dangling_escape\<close>). On the two-character
  input made of an opening parenthesis and a backslash the balance fails: the backslash
  is copied alone (it is the last character), and the closer appended for the open
  parenthesis lands right behind it, escaped. The output has one non-escaped opener and
  no non-escaped closer, and the conversion hands it on between its slashes.
\<close>

theorem balance_parentheses_dangling_escape:
  "balance_parentheses [CHR ''('', BSL] = [CHR ''('', BSL, CHR '')''] \<and>
   unescaped_count (CHR ''('') (balance_parentheses [CHR ''('', BSL]) = 1 \<and>
   unescaped_count (CHR '')'') (balance_parentheses [CHR ''('', BSL]) = 0 \<and>
   py_to_js_regex [CHR ''('', BSL] 0 False = (Some (''/('' @ [BSL] @ '')/''), [], [])"
  by code_simp

section \<open>The preserve pass\<close>

text \<open>
  C3. \<open>preserve_complex_pattern\<close> returns its input unchanged, for every input: each of
  its three substitutions puts back the text it matched. In particular every span of the
  form \<open>(?:...)?\<close> of the input is the same in the output.
\<close>

theorem preserve_complex_pattern_noop:
  "preserve_complex_pattern regex = regex"
  by (rule preserve_id)

section \<open>Atomic groups\<close>

text \<open>
  C6. The pattern \<open>(?>atomic)\<close> without flags converts to \<open>/(?:atomic)/\<close> with exactly
  one diagnostic, the atomic-group one. And \<open>handle_atomic_groups\<close> replaces every
  opener \<open>(?>\<close> by \<open>(?:\<close>: an opener between any two texts becomes \<open>(?:\<close> between
  the conversions of the two, and no opener \<open>(?>\<close> is left in the result.
\<close>

theorem atomic_groups_downgraded:
  "py_to_js_regex ''(?>atomic)'' 0 False = (Some ''/(?:atomic)/'', [atomic_warning], []) \<and>
   (\<forall>xs ys. fst (handle_atomic_groups (xs @ ''(?>'' @ ys)) =
      fst (handle_atomic_groups xs) @ ''(?:'' @ fst (handle_atomic_groups ys)) \<and>
   (\<forall>s. \<not> str_in ''(?>'' (fst (handle_atomic_groups s)))"
proof -
  have "py_to_js_regex ''(?>atomic)'' 0 False = (Some ''/(?:atomic)/'', [atomic_warning], [])"
    by code_simp
  then show ?thesis using atomic_split atomic_no_residue by blast
qed

section \<open>Diagnostics per rule\<close>

text \<open>
  C4, as stated, fails. The pattern \<open>(?>a)(?>b)\<close> holds two openers \<open>(?>\<close>, and its
  conversion reports one atomic-group diagnostic, not two. With the flag \<open>VERBOSE\<close> the
  pattern \<open>(?P=a)#(?P=b)\<close> holds two occurrences of \<open>(?P=name)\<close>, and its conversion
  reports one named-reference diagnostic: the normalizer has removed the second occurrence
  as a comment before the rule runs.
\<close>

theorem diagnostic_count_counterexample:
  "count_occ ''(?>'' ''(?>a)(?>b)'' = 2 \<and>
   py_to_js_regex ''(?>a)(?>b)'' 0 False = (Some ''/(?:a)(?:b)/'', [atomic_warning], []) \<and>
   count_list (fst (snd (py_to_js_regex ''(?>a)(?>b)'' 0 False))) atomic_warning \<noteq>
     count_occ ''(?>'' ''(?>a)(?>b)'' \<and>
   count_named_refs ''(?P=a)#(?P=b)'' = 2 \<and>
   fst (snd (py_to_js_regex ''(?P=a)#(?P=b)'' VERBOSE False)) = [named_ref_warning ''a''] \<and>
   length (filter named_ref_diagnostic (fst (snd (py_to_js_regex ''(?P=a)#(?P=b)'' VERBOSE False)))) \<noteq>
     count_named_refs ''(?P=a)#(?P=b)''"
  by code_simp

text \<open>
  C4, amended. The warnings of a conversion hold one named-reference diagnostic per
  occurrence of \<open>(?P=name)\<close> in the pattern, and the atomic-group diagnostic exactly
  once when the pattern holds at least one opener \<open>(?>\<close>, however many, and not at all
  otherwise. The pattern is the one given when the flag \<open>VERBOSE\<close> is not set, and what the
  normalizer makes of it (after the marker and the quotes are stripped) when it is set.
  The two rules alone: \<open>handle_named_group_references\<close> emits one diagnostic per
  occurrence, \<open>handle_atomic_groups\<close> one diagnostic if there is an opener.
\<close>

theorem diagnostics_per_rule:
  "length (snd (handle_named_group_references s)) = count_named_refs s \<and>
   snd (handle_atomic_groups s) = (if str_in ''(?>'' s then [atomic_warning] else []) \<and>
   length (filter named_ref_diagnostic (fst (snd (py_to_js_regex p f v)))) =
     count_named_refs
       (if f AND VERBOSE = 0 then p
        else handle_verbose_mode (py_strip [SQ, DQ] (py_lstrip ''r'' p))) \<and>
   count_list (fst (snd (py_to_js_regex p f v))) atomic_warning =
     (if str_in ''(?>''
          (if f AND VERBOSE = 0 then p
           else handle_verbose_mode (py_strip [SQ, DQ] (py_lstrip ''r'' p)))
      then 1 else 0)"
proof -
  have n: "length (filter named_ref_diagnostic (conv_warnings t)) = count_named_refs t" for t
    by (simp only: named_ref_diagnostics named_refs_count cc_named_refs)
  note r = named_refs_count [of s] atomic_snd [of s]
  show ?thesis
  proof (cases "f AND VERBOSE = 0")
    case True
    then have s: "stripped p f = py_strip [SQ, DQ] (py_lstrip ''r'' p)" by (simp add: stripped_def)
    have "length (filter named_ref_diagnostic (fst (snd (py_to_js_regex p f v)))) =
        count_named_refs p"
      by (simp only: driver_warnings n s strip_named_refs)
    moreover have "count_list (fst (snd (py_to_js_regex p f v))) atomic_warning =
        (if str_in ''(?>'' p then 1 else 0)"
      by (simp only: driver_warnings atomic_diagnostics s strip_atomic)
    ultimately show ?thesis using True r by simp
  next
    case False
    then have s: "stripped p f = handle_verbose_mode (py_strip [SQ, DQ] (py_lstrip ''r'' p))"
      by (simp add: stripped_def)
    have "length (filter named_ref_diagnostic (fst (snd (py_to_js_regex p f v)))) =
        count_named_refs (handle_verbose_mode (py_strip [SQ, DQ] (py_lstrip ''r'' p)))"
      by (simp only: driver_warnings n s)
    moreover have "count_list (fst (snd (py_to_js_regex p f v))) atomic_warning =
        (if str_in ''(?>'' (handle_verbose_mode (py_strip [SQ, DQ] (py_lstrip ''r'' p))) then 1 else 0)"
      by (simp only: driver_warnings atomic_diagnostics s)
    ultimately show ?thesis using False r by simp
  qed
qed

section \<open>Anchors\<close>

text \<open>
  C5. The pattern \<open>\Astart\<close> without flags converts to \<open>/^start/\<close> with no diagnostic.
  And in \<open>conservative_conversion\<close> every \<open>\A\<close> becomes one \<open>^\<close> and every \<open>\Z\<close> one
  \<open>$\<close>, whatever stands around it: the result has one \<open>^\<close> more than the input for each
  occurrence of \<open>\A\<close>, one \<open>$\<close> more for each occurrence of \<open>\Z\<close>, and neither \<open>\A\<close> nor
  \<open>\Z\<close> is left in it.
\<close>

theorem anchors_converted:
  "py_to_js_regex ([BSL] @ ''Astart'') 0 False = (Some ''/^start/'', [], []) \<and>
   (\<forall>s. count_list (conservative_conversion s) (CHR ''^'') =
      count_list s (CHR ''^'') + count_occ [BSL, CHR ''A''] s) \<and>
   (\<forall>s. count_list (conservative_conversion s) (CHR ''$'') =
      count_list s (CHR ''$'') + count_occ [BSL, CHR ''Z''] s) \<and>
   (\<forall>s. \<not> str_in [BSL, CHR ''A''] (conservative_conversion s)) \<and>
   (\<forall>s. \<not> str_in [BSL, CHR ''Z''] (conservative_conversion s))"
proof -
  have "py_to_js_regex ([BSL] @ ''Astart'') 0 False = (Some ''/^start/'', [], [])"
    by code_simp
  then show ?thesis using cc_count_start cc_count_end cc_no_pair by blast
qed

section \<open>The comment and whitespace normalizer\<close>

text \<open>
  C8. The normalizer is to remove the whitespace outside character classes and to keep
  the whitespace inside them, so that a dense pattern, one whose only whitespace stands
  inside character classes, is to be returned unchanged. It keeps the blank of the dense
  patterns \<open>[ ]\<close> and \<open>[a b]\<close>, and removes the one of \<open>a [ ]\<close> that stands outside the
  class. But in the dense patterns \<open>[ [a]\<close> and \<open>[ a[]\<close>, where the class holds an
  opening bracket after the blank, it deletes the blank inside the class: the lookahead
  of line 178 takes the inner bracket for the start of a class. So the dense pattern
  \<open>[ [a]\<close> is changed, also when it is what the normalizer itself has returned, and
  through the conversion with the flag \<open>VERBOSE\<close>. (A pattern without any whitespace,
  comment or marker is returned unchanged: \<open>spaceless_unchanged\<close>.)
\<close>

theorem class_whitespace_deleted:
  "dense ''[ [a]'' \<and> handle_verbose_mode ''[ [a]'' = ''[[a]'' \<and>
   dense ''[ a[]'' \<and> handle_verbose_mode ''[ a[]'' = ''[a[]'' \<and>
   dense ''[ ]'' \<and> handle_verbose_mode ''[ ]'' = ''[ ]'' \<and>
   dense ''[a b]'' \<and> handle_verbose_mode ''[a b]'' = ''[a b]'' \<and>
   \<not> dense ''a [ ]'' \<and> handle_verbose_mode ''a [ ]'' = ''a[ ]'' \<and>
   handle_verbose_mode ''[ (?x)[a]'' = ''[ [a]'' \<and>
   handle_verbose_mode (handle_verbose_mode ''[ (?x)[a]'') \<noteq> handle_verbose_mode ''[ (?x)[a]'' \<and>
   py_to_js_regex ''[ [a]'' VERBOSE False = (Some ''/[[a]/'', [], [])"
  by code_simp

section \<open>The raw-string marker\<close>

text \<open>
  C9. The stripping step removes every leading \<open>r\<close> and nothing else: of \<open>n\<close> markers
  before a text that does not begin with \<open>r\<close>, exactly that text is left. The quotes
  around a pattern are stripped next: of a pattern that neither begins nor ends with a
  quote, put between any quotes, exactly the pattern is left. All this comes before any
  other processing: the conversion of such a pattern behind \<open>n\<close> markers and between
  quotes is the conversion of the pattern itself (the whole result when no steps are
  recorded, the literal and the warnings in any case). For every text, \<open>n\<close> markers put
  before it change nothing in what is left after the step, which never begins with \<open>r\<close>,
  and what is processed neither begins nor ends with a quote. So \<open>rrabc\<close> is converted
  as \<open>abc\<close>, the pattern \<open>a+b\<close> behind one marker and between quotes as \<open>a+b\<close>, the
  pattern \<open>rrr\<close> as the empty pattern, and the step is the first that is recorded.
\<close>

theorem raw_marker_stripped:
  "(\<not> prefix ''r'' s \<longrightarrow> py_lstrip ''r'' (replicate n (CHR ''r'') @ s) = s) \<and>
   (set qa \<subseteq> {SQ, DQ} \<and> set qb \<subseteq> {SQ, DQ} \<and>
    \<not> prefix [SQ] t \<and> \<not> prefix [DQ] t \<and> \<not> suffix [SQ] t \<and> \<not> suffix [DQ] t \<longrightarrow>
      py_strip [SQ, DQ] (qa @ t @ qb) = t \<and>
      (\<not> prefix ''r'' t \<longrightarrow>
         py_to_js_regex (replicate n (CHR ''r'') @ qa @ t @ qb) f False = py_to_js_regex t f False \<and>
         fst (py_to_js_regex (replicate n (CHR ''r'') @ qa @ t @ qb) f v) =
           fst (py_to_js_regex t f v) \<and>
         fst (snd (py_to_js_regex (replicate n (CHR ''r'') @ qa @ t @ qb) f v)) =
           fst (snd (py_to_js_regex t f v)))) \<and>
   py_lstrip ''r'' (replicate n (CHR ''r'') @ s) = py_lstrip ''r'' s \<and>
   \<not> prefix ''r'' (py_lstrip ''r'' s) \<and>
   \<not> prefix [SQ] (py_strip [SQ, DQ] (py_lstrip ''r'' s)) \<and>
   \<not> prefix [DQ] (py_strip [SQ, DQ] (py_lstrip ''r'' s)) \<and>
   \<not> suffix [SQ] (py_strip [SQ, DQ] (py_lstrip ''r'' s)) \<and>
   \<not> suffix [DQ] (py_strip [SQ, DQ] (py_lstrip ''r'' s)) \<and>
   py_to_js_regex (replicate n (CHR ''r'') @ s) f False = py_to_js_regex s f False \<and>
   fst (py_to_js_regex (replicate n (CHR ''r'') @ s) f v) = fst (py_to_js_regex s f v) \<and>
   fst (snd (py_to_js_regex (replicate n (CHR ''r'') @ s) f v)) =
     fst (snd (py_to_js_regex s f v)) \<and>
   py_to_js_regex ''rrabc'' 0 False = (Some ''/abc/'', [], []) \<and>
   py_to_js_regex (''r'' @ [SQ] @ ''a+b'' @ [SQ]) 0 False = (Some ''/a+b/'', [], []) \<and>
   py_to_js_regex ''rrr'' 0 False = (Some ''//'', [], []) \<and>
   take 2 (snd (snd (py_to_js_regex ''rra'' 0 True))) =
     [''Original Python regex: rra'',
      ''Stripped '' @ [SQ] @ ''r'' @ [SQ] @ '' prefix and quotes: a'']"
proof -
  have 1: "py_lstrip ''r'' (replicate n (CHR ''r'') @ s) = py_lstrip ''r'' s"
    by (rule lstrip_marker)
  have 2: "\<not> prefix ''r'' (py_lstrip ''r'' s)"
    unfolding py_lstrip_def by (rule dropWhile_no_prefix) simp
  have st: "stripped (replicate n (CHR ''r'') @ s) f = stripped s f"
    unfolding stripped_def by (simp only: 1)
  have 3: "py_to_js_regex (replicate n (CHR ''r'') @ s) f False = py_to_js_regex s f False"
    by (rule driver_same) (simp only: 1)
  have 4: "fst (py_to_js_regex (replicate n (CHR ''r'') @ s) f v) = fst (py_to_js_regex s f v)"
    by (simp only: driver_regex st)
  have 5: "fst (snd (py_to_js_regex (replicate n (CHR ''r'') @ s) f v)) =
     fst (snd (py_to_js_regex s f v))"
    by (simp only: driver_warnings st)
  have q: "SQ \<in> set [SQ, DQ]" "DQ \<in> set [SQ, DQ]" by simp_all
  note e = strip_ends [OF q(1), of "py_lstrip ''r'' s"] strip_ends [OF q(2), of "py_lstrip ''r'' s"]
  have 6: "\<not> prefix ''r'' s \<longrightarrow> py_lstrip ''r'' (replicate n (CHR ''r'') @ s) = s"
    using lstrip_exact by blast
  note 7 = quoted_conversion [where qa = qa and qb = qb and t = t and n = n and f = f and v = v]
  have 8: "py_to_js_regex ''rrabc'' 0 False = (Some ''/abc/'', [], [])" by code_simp
  have 9: "py_to_js_regex (''r'' @ [SQ] @ ''a+b'' @ [SQ]) 0 False = (Some ''/a+b/'', [], [])"
    by code_simp
  have 10: "py_to_js_regex ''rrr'' 0 False = (Some ''//'', [], [])" by code_simp
  have 11: "take 2 (snd (snd (py_to_js_regex ''rra'' 0 True))) =
     [''Original Python regex: rra'',
      ''Stripped '' @ [SQ] @ ''r'' @ [SQ] @ '' prefix and quotes: a'']" by code_simp
  show ?thesis by (intro conjI 6 7 1 2 3 4 5 e 8 9 10 11)
qed

text \<open>Two markers before \<open>abc\<close>, and the pattern \<open>a+b\<close> behind two markers and between quotes.\<close>

theorem raw_marker_stripped_witness:
  "py_lstrip ''r'' (replicate 2 (CHR ''r'') @ ''abc'') = ''abc'' \<and>
   py_strip [SQ, DQ] ([SQ] @ ''a+b'' @ [SQ]) = ''a+b'' \<and>
   py_to_js_regex (replicate 2 (CHR ''r'') @ [SQ] @ ''a+b'' @ [SQ]) 0 False =
     py_to_js_regex ''a+b'' 0 False"
  using raw_marker_stripped [where s = "''abc''" and n = 2 and qa = "[SQ]" and qb = "[SQ]"
      and t = "''a+b''" and f = 0 and v = False]
  by (simp add: SQ_def DQ_def suffix_Cons)

section \<open>The success path\<close>

text \<open>
  C10. Every call returns through the success path: the body of the \<open>try\<close> statement
  ends in its \<open>return\<close>, whatever the lists it starts from, so no
  \<open>RegexConversionError\<close> reaches the \<open>except\<close> clause; the first component of the
  result is a string of the form \<open>/body/flags\<close>, where the flag letters are
  \<open>handle_flags\<close> of the flags given, letters of \<open>imsu\<close> in that order.
\<close>

theorem conversion_always_succeeds:
  "(\<exists>r. try_body p f v w s = Inr r) \<and>
   (\<exists>body warnings steps. py_to_js_regex p f v =
      (Some (''/'' @ body @ ''/'' @ handle_flags f), warnings, steps)) \<and>
   subseq (handle_flags f) ''imsu''"
proof -
  have 1: "\<exists>r. try_body p f v w s = Inr r" by (simp add: try_body_def Let_def)
  have "py_to_js_regex p f v =
      (Some (''/'' @ balance_parentheses (rewritten (stripped p f)) @ ''/'' @ handle_flags f),
       snd (py_to_js_regex p f v))"
    using driver_regex [of p f v] by (simp add: prod_eq_iff)
  moreover obtain warnings steps where "snd (py_to_js_regex p f v) = (warnings, steps)"
    by (cases "snd (py_to_js_regex p f v)")
  ultimately have 2: "\<exists>body warnings steps. py_to_js_regex p f v =
      (Some (''/'' @ body @ ''/'' @ handle_flags f), warnings, steps)"
    by auto
  have 3: "subseq (handle_flags f) ''imsu''" by (simp add: handle_flags_def)
  show ?thesis by (intro conjI 1 2 3)
qed

end
